theory Spec2Isabelle
  imports Main "HOL-Library.Word" "HOL-Library.Log_Nat"
begin

section \<open>Operator overloads for raylib value types: a model of RaylibOpOverloads.hpp\<close>

text \<open>
  The header defines free functions on raylib's plain structs. Each overload is embedded as a
  HOL function named after the struct and the operator (\<open>Color_add\<close> for
  \<^verbatim>\<open>operator+(const Color&, const Color&)\<close>, and so on). A C++ \<^verbatim>\<open>int\<close> is
  modelled by \<^typ>\<open>int\<close>: the intermediates are sums, differences and products of two
  bytes, far from the limits of a 32-bit integer. An \<^verbatim>\<open>unsigned char\<close> is an 8-bit
  word, and the cast \<^verbatim>\<open>(unsigned char)\<close> of an integer is \<^const>\<open>word_of_int\<close>, which
  reduces modulo 256 as the cast does.
\<close>

subsection \<open>Colours\<close>

type_synonym uchar = "8 word"

record Color =
  r :: uchar
  g :: uchar
  b :: uchar
  a :: uchar

text \<open>
  Every colour overload declares its result as \<^verbatim>\<open>Color c;\<close> without an initialiser and
  then assigns fields one at a time. The contents of \<open>c\<close> before the first assignment are
  whatever the stack held; the model takes them as the first argument \<open>c\<close>, so that a field
  the function never assigns shows in the result as the corresponding field of that argument.
\<close>

definition Color_add :: "Color \<Rightarrow> Color \<Rightarrow> Color \<Rightarrow> Color" where
  "Color_add c p q =
    (let red = uint (r p) + uint (r q);
         green = uint (g p) + uint (g q);
         blue = uint (b p) + uint (b q);
         alpha = uint (a p) + uint (a q);
         c = c\<lparr>r := word_of_int (if red > 255 then 255 else red)\<rparr>;
         c = c\<lparr>g := word_of_int (if green > 255 then 255 else green)\<rparr>;
         c = c\<lparr>b := word_of_int (if blue > 255 then 255 else blue)\<rparr>;
         c = c\<lparr>r := word_of_int (if alpha > 255 then 255 else alpha)\<rparr>
     in c)"

definition Color_sub :: "Color \<Rightarrow> Color \<Rightarrow> Color \<Rightarrow> Color" where
  "Color_sub c p q =
    (let red = uint (r p) - uint (r q);
         green = uint (g p) - uint (g q);
         blue = uint (b p) - uint (b q);
         alpha = uint (a p) - uint (a q);
         c = c\<lparr>r := word_of_int (if red < 0 then 0 else red)\<rparr>;
         c = c\<lparr>g := word_of_int (if green < 0 then 0 else green)\<rparr>;
         c = c\<lparr>b := word_of_int (if blue < 0 then 0 else blue)\<rparr>;
         c = c\<lparr>r := word_of_int (if alpha < 0 then 0 else alpha)\<rparr>
     in c)"

definition Color_mul :: "Color \<Rightarrow> Color \<Rightarrow> Color \<Rightarrow> Color" where
  "Color_mul c p q =
    (let red = uint (r p) * uint (r q);
         green = uint (g p) * uint (g q);
         blue = uint (b p) * uint (b q);
         alpha = uint (a p) * uint (a q);
         c = c\<lparr>r := word_of_int (if red > 255 then 255 else if red < 0 then 0 else red)\<rparr>;
         c = c\<lparr>g := word_of_int (if green > 255 then 255 else if green < 0 then 0 else green)\<rparr>;
         c = c\<lparr>b := word_of_int (if blue > 255 then 255 else if blue < 0 then 0 else blue)\<rparr>;
         c = c\<lparr>r := word_of_int (if alpha > 255 then 255 else if alpha < 0 then 0 else alpha)\<rparr>
     in c)"

text \<open>The four channels of a colour, read as integers.\<close>

definition channels :: "Color \<Rightarrow> int list" where
  "channels c = [uint (r c), uint (g c), uint (b c), uint (a c)]"

definition byte_range :: "int \<Rightarrow> bool" where
  "byte_range v \<longleftrightarrow> 0 \<le> v \<and> v \<le> 255"

subsection \<open>Floating-point values\<close>

text \<open>
  A \<^verbatim>\<open>float\<close> or \<^verbatim>\<open>double\<close> value is a NaN, an infinity with its sign, or a finite
  number given by its sign bit (\<open>True\<close> for negative) and its magnitude, so that the two
  zeros \<open>Fin False 0\<close> and \<open>Fin True 0\<close> are distinct values, as in IEEE 754. Arithmetic
  computes the exact rational result and rounds it to nearest, ties to even, in the format
  of the operation.
\<close>

datatype fpval = NaN | Infty bool | Fin bool rat

record fformat =
  prec :: nat
  qmin :: int
  emax :: int

text \<open>
  A format has \<open>prec\<close> significant bits; its numbers are integer multiples of
  \<open>2 powi qmin\<close> and smaller in magnitude than \<open>2 powi emax\<close>.
\<close>

definition binary32 :: fformat where
  "binary32 = \<lparr>prec = 24, qmin = - 149, emax = 128\<rparr>"

definition binary64 :: fformat where
  "binary64 = \<lparr>prec = 53, qmin = - 1074, emax = 1024\<rparr>"

definition ilog2 :: "rat \<Rightarrow> int" where
  \<comment> \<open>the integer part of the binary logarithm of a positive rational\<close>
  "ilog2 q = (let (n, d) = quotient_of q; k = bitlen n - bitlen d
              in if 2 powi k \<le> q then k else k - 1)"

definition rne :: "rat \<Rightarrow> int" where
  \<comment> \<open>the nearest integer, the even one of two equally near\<close>
  "rne q = (let f = \<lfloor>q\<rfloor>; d = q - of_int f
            in if d < 1 / 2 then f else if 1 / 2 < d then f + 1
               else if even f then f else f + 1)"

definition quantum :: "fformat \<Rightarrow> rat \<Rightarrow> rat" where
  \<comment> \<open>the spacing of the format's numbers around a positive magnitude\<close>
  "quantum F m = 2 powi max (qmin F) (ilog2 m - int (prec F) + 1)"

definition round_signed :: "fformat \<Rightarrow> bool \<Rightarrow> rat \<Rightarrow> fpval" where
  \<comment> \<open>rounds the exact magnitude \<open>m\<close> of a result with sign \<open>s\<close>; overflow gives an infinity\<close>
  "round_signed F s m =
     (if m = 0 then Fin s 0
      else let u = quantum F m; v = of_int (rne (m / u)) * u
           in if 2 powi emax F \<le> v then Infty s else Fin s v)"

definition representable :: "fformat \<Rightarrow> rat \<Rightarrow> bool" where
  \<comment> \<open>a magnitude of the format: zero, or a multiple of its own quantum below the overflow bound\<close>
  "representable F m \<longleftrightarrow>
     m = 0 \<or> (0 < m \<and> m < 2 powi emax F \<and> of_int \<lfloor>m / quantum F m\<rfloor> = m / quantum F m)"

fun is_float :: "fpval \<Rightarrow> bool" where
  "is_float (Fin s m) = representable binary32 m"
| "is_float _ = True"

definition fval :: "bool \<Rightarrow> rat \<Rightarrow> rat" where
  "fval s m = (if s then - m else m)"

fun fneg :: "fpval \<Rightarrow> fpval" where
  "fneg NaN = NaN"
| "fneg (Infty s) = Infty (\<not> s)"
| "fneg (Fin s m) = Fin (\<not> s) m"

fun fabs :: "fpval \<Rightarrow> fpval" where
  "fabs NaN = NaN"
| "fabs (Infty s) = Infty False"
| "fabs (Fin s m) = Fin False m"

fun fmul_in :: "fformat \<Rightarrow> fpval \<Rightarrow> fpval \<Rightarrow> fpval" where
  "fmul_in F NaN _ = NaN"
| "fmul_in F _ NaN = NaN"
| "fmul_in F (Fin s m) (Fin t n) = round_signed F (s \<noteq> t) (m * n)"
| "fmul_in F (Infty s) (Infty t) = Infty (s \<noteq> t)"
| "fmul_in F (Infty s) (Fin t n) = (if n = 0 then NaN else Infty (s \<noteq> t))"
| "fmul_in F (Fin s m) (Infty t) = (if m = 0 then NaN else Infty (s \<noteq> t))"

fun fdiv_in :: "fformat \<Rightarrow> fpval \<Rightarrow> fpval \<Rightarrow> fpval" where
  "fdiv_in F NaN _ = NaN"
| "fdiv_in F _ NaN = NaN"
| "fdiv_in F (Fin s m) (Fin t n) =
     (if n = 0 then (if m = 0 then NaN else Infty (s \<noteq> t))
      else round_signed F (s \<noteq> t) (m / n))"
| "fdiv_in F (Infty s) (Infty t) = NaN"
| "fdiv_in F (Infty s) (Fin t n) = Infty (s \<noteq> t)"
| "fdiv_in F (Fin s m) (Infty t) = Fin (s \<noteq> t) 0"

text \<open>
  A difference that is exactly zero is \<open>+0\<close>, except that \<open>(-0) - (+0)\<close> is \<open>-0\<close>.
\<close>

fun fsub_in :: "fformat \<Rightarrow> fpval \<Rightarrow> fpval \<Rightarrow> fpval" where
  "fsub_in F NaN _ = NaN"
| "fsub_in F _ NaN = NaN"
| "fsub_in F (Fin s m) (Fin t n) =
     (let d = fval s m - fval t n
      in if d = 0 then Fin (s \<and> \<not> t) 0 else round_signed F (d < 0) \<bar>d\<bar>)"
| "fsub_in F (Infty s) (Infty t) = (if s = t then NaN else Infty s)"
| "fsub_in F (Infty s) (Fin t n) = Infty s"
| "fsub_in F (Fin s m) (Infty t) = Infty (\<not> t)"

fun flt :: "fpval \<Rightarrow> fpval \<Rightarrow> bool" where
  "flt NaN _ = False"
| "flt _ NaN = False"
| "flt (Fin s m) (Fin t n) = (fval s m < fval t n)"
| "flt (Infty s) (Infty t) = (s \<and> \<not> t)"
| "flt (Infty s) (Fin t n) = s"
| "flt (Fin s m) (Infty t) = (\<not> t)"

fun feq :: "fpval \<Rightarrow> fpval \<Rightarrow> bool" where
  "feq NaN _ = False"
| "feq _ NaN = False"
| "feq (Fin s m) (Fin t n) = (fval s m = fval t n)"
| "feq (Infty s) (Infty t) = (s = t)"
| "feq (Infty s) (Fin t n) = False"
| "feq (Fin s m) (Infty t) = False"

definition fgt :: "fpval \<Rightarrow> fpval \<Rightarrow> bool" where
  "fgt p q = flt q p"

definition fle :: "fpval \<Rightarrow> fpval \<Rightarrow> bool" where
  "fle p q \<longleftrightarrow> flt p q \<or> feq p q"

text \<open>The operations of type \<^verbatim>\<open>float\<close>, and the conversions the header uses.\<close>

definition fmul :: "fpval \<Rightarrow> fpval \<Rightarrow> fpval" where
  "fmul = fmul_in binary32"

definition fsub :: "fpval \<Rightarrow> fpval \<Rightarrow> fpval" where
  "fsub = fsub_in binary32"

definition double_of_float :: "fpval \<Rightarrow> fpval" where
  \<comment> \<open>every \<^verbatim>\<open>float\<close> is a \<^verbatim>\<open>double\<close>: the promotion changes nothing\<close>
  "double_of_float p = p"

fun float_of_double :: "fpval \<Rightarrow> fpval" where
  "float_of_double (Fin s m) = round_signed binary32 s m"
| "float_of_double p = p"

definition float_of_int :: "int \<Rightarrow> fpval" where
  \<comment> \<open>exact up to \<open>2 ^ 24\<close> in magnitude; the header converts bytes and the constants 0 and 255\<close>
  "float_of_int n = Fin (n < 0) (of_int \<bar>n\<bar>)"

definition float_of_uchar :: "uchar \<Rightarrow> fpval" where
  "float_of_uchar u = float_of_int (uint u)"

definition trunc :: "rat \<Rightarrow> int" where
  "trunc q = (if q < 0 then \<lceil>q\<rceil> else \<lfloor>q\<rfloor>)"

text \<open>
  The cast \<^verbatim>\<open>(unsigned char)\<close> of a \<^verbatim>\<open>float\<close> discards the fraction. C++ leaves the
  result undefined when the truncated value is not a byte value or the operand is a NaN or
  an infinity; the byte the machine produces then is the parameter \<open>ub\<close>.
\<close>

fun uchar_of_float :: "uchar \<Rightarrow> fpval \<Rightarrow> uchar" where
  "uchar_of_float ub (Fin s m) =
     (if - 1 < fval s m \<and> fval s m < 256 then word_of_int (trunc (fval s m)) else ub)"
| "uchar_of_float ub _ = ub"

definition Color_mul_float :: "uchar \<Rightarrow> Color \<Rightarrow> Color \<Rightarrow> fpval \<Rightarrow> Color" where
  "Color_mul_float ub c p s =
    (let red = fmul (float_of_uchar (r p)) s;
         green = fmul (float_of_uchar (g p)) s;
         blue = fmul (float_of_uchar (b p)) s;
         alpha = fmul (float_of_uchar (a p)) s;
         c = c\<lparr>r := uchar_of_float ub
               (if fgt red (float_of_int 255) then float_of_int 255
                else if flt red (float_of_int 0) then float_of_int 0 else red)\<rparr>;
         c = c\<lparr>g := uchar_of_float ub
               (if fgt green (float_of_int 255) then float_of_int 255
                else if flt green (float_of_int 0) then float_of_int 0 else green)\<rparr>;
         c = c\<lparr>b := uchar_of_float ub
               (if fgt blue (float_of_int 255) then float_of_int 255
                else if flt blue (float_of_int 0) then float_of_int 0 else blue)\<rparr>;
         c = c\<lparr>r := uchar_of_float ub
               (if fgt alpha (float_of_int 255) then float_of_int 255
                else if flt alpha (float_of_int 0) then float_of_int 0 else alpha)\<rparr>
     in c)"

text \<open>
  The value the nested conditional of the colour-by-scalar overload selects for an
  intermediate \<open>v\<close>, written once for the statements below.
\<close>

definition saturate :: "fpval \<Rightarrow> fpval" where
  "saturate v = (if fgt v (Fin False 255) then Fin False 255
                 else if flt v (Fin False 0) then Fin False 0 else v)"

subsection \<open>Vectors\<close>

record Vector2 =
  x :: fpval
  y :: fpval

record Vector3 =
  x :: fpval
  y :: fpval
  z :: fpval

record Vector4 =
  x :: fpval
  y :: fpval
  z :: fpval
  w :: fpval

text \<open>
  Modelled from the spec: \<^verbatim>\<open>Vector2Negate\<close>, \<^verbatim>\<open>Vector3Negate\<close>, \<^verbatim>\<open>Vector2Scale\<close> and
  \<^verbatim>\<open>Vector3Scale\<close> belong to raymath.h, which the header includes and which is not part of
  the repository. The spec describes them as the componentwise negation and the
  componentwise scale of a vector by a scalar.
\<close>

definition Vector2Negate :: "Vector2 \<Rightarrow> Vector2" where
  "Vector2Negate v = \<lparr>Vector2.x = fneg (Vector2.x v), Vector2.y = fneg (Vector2.y v)\<rparr>"

definition Vector3Negate :: "Vector3 \<Rightarrow> Vector3" where
  "Vector3Negate v =
     \<lparr>Vector3.x = fneg (Vector3.x v), Vector3.y = fneg (Vector3.y v),
      Vector3.z = fneg (Vector3.z v)\<rparr>"

definition Vector2Scale :: "Vector2 \<Rightarrow> fpval \<Rightarrow> Vector2" where
  "Vector2Scale v scale =
     \<lparr>Vector2.x = fmul (Vector2.x v) scale, Vector2.y = fmul (Vector2.y v) scale\<rparr>"

definition Vector3Scale :: "Vector3 \<Rightarrow> fpval \<Rightarrow> Vector3" where
  "Vector3Scale v scale =
     \<lparr>Vector3.x = fmul (Vector3.x v) scale, Vector3.y = fmul (Vector3.y v) scale,
      Vector3.z = fmul (Vector3.z v) scale\<rparr>"

text \<open>
  Unary minus takes its operand by non-const reference, assigns to it and returns the
  reference. A reference is an address into a store of vectors; the overload returns the
  address it was given together with the store after the assignment.
\<close>

type_synonym 'v store = "nat \<Rightarrow> 'v"

definition Vector2_neg :: "Vector2 store \<Rightarrow> nat \<Rightarrow> nat \<times> Vector2 store" where
  "Vector2_neg st p = (let st = st(p := Vector2Negate (st p)) in (p, st))"

definition Vector3_neg :: "Vector3 store \<Rightarrow> nat \<Rightarrow> nat \<times> Vector3 store" where
  "Vector3_neg st p = (let st = st(p := Vector3Negate (st p)) in (p, st))"

definition Vector2_mul :: "Vector2 \<Rightarrow> fpval \<Rightarrow> Vector2" where
  "Vector2_mul v s = Vector2Scale v s"

definition Vector3_mul :: "Vector3 \<Rightarrow> fpval \<Rightarrow> Vector3" where
  "Vector3_mul v s = Vector3Scale v s"

text \<open>
  Division writes a line to \<^verbatim>\<open>std::cerr\<close> and throws \<^verbatim>\<open>std::domain_error\<close> when the
  divisor compares equal to \<^verbatim>\<open>0.0\<close>. The contents of \<^verbatim>\<open>std::cerr\<close> are passed in and
  returned; the exception is the left summand of the result. The comparison and the
  reciprocal \<^verbatim>\<open>1.0/b\<close> are computed in \<^verbatim>\<open>double\<close>, and the reciprocal is then stored in a
  \<^verbatim>\<open>float\<close>.
\<close>

datatype error = domain_error string

definition endl :: string where
  "endl = [CHR 0x0A]"

definition Vector2_div :: "string \<Rightarrow> Vector2 \<Rightarrow> fpval \<Rightarrow> (error + Vector2) \<times> string" where
  "Vector2_div cerr v s =
     (if feq (double_of_float s) (Fin False 0)
      then (Inl (domain_error ''Division by zero error''),
            cerr @ ''Division by zero error.'' @ endl)
      else let recip = float_of_double (fdiv_in binary64 (Fin False 1) (double_of_float s))
           in (Inr (Vector2_mul v recip), cerr))"

definition Vector3_div :: "string \<Rightarrow> Vector3 \<Rightarrow> fpval \<Rightarrow> (error + Vector3) \<times> string" where
  "Vector3_div cerr v s =
     (if feq (double_of_float s) (Fin False 0)
      then (Inl (domain_error ''Division by zero error''),
            cerr @ ''Division by zero error.'' @ endl)
      else let recip = float_of_double (fdiv_in binary64 (Fin False 1) (double_of_float s))
           in (Inr (Vector3_mul v recip), cerr))"

subsection \<open>Equality with tolerance\<close>

text \<open>
  With \<^verbatim>\<open>EQUALITY_OPERATOR_KNUTH\<close> defined, as in the header, each overload of
  \<^verbatim>\<open>operator==\<close> evaluates the same expression on every pair of components;
  \<open>IsEqual\<close> is that expression, \<open>epsilon\<close> is
  \<^verbatim>\<open>std::numeric_limits<float>::epsilon()\<close>.
\<close>

definition epsilon :: fpval where
  "epsilon = Fin False (1 / 8388608)"

definition IsEqual :: "fpval \<Rightarrow> fpval \<Rightarrow> bool" where
  "IsEqual p q =
     fle (fabs (fsub p q))
         (fmul (if fgt (fabs p) (fabs q) then fabs q else fabs p) epsilon)"

definition Vector2_eq :: "Vector2 \<Rightarrow> Vector2 \<Rightarrow> bool" where
  "Vector2_eq u v =
     (let XIsEqual = IsEqual (Vector2.x u) (Vector2.x v);
          YIsEqual = IsEqual (Vector2.y u) (Vector2.y v)
      in XIsEqual \<and> YIsEqual)"

definition Vector3_eq :: "Vector3 \<Rightarrow> Vector3 \<Rightarrow> bool" where
  "Vector3_eq u v =
     (let XIsEqual = IsEqual (Vector3.x u) (Vector3.x v);
          YIsEqual = IsEqual (Vector3.y u) (Vector3.y v);
          ZIsEqual = IsEqual (Vector3.z u) (Vector3.z v)
      in XIsEqual \<and> YIsEqual \<and> ZIsEqual)"



text \<open>
  The header computes the right-hand side in \<^verbatim>\<open>float\<close>. For two finite components its
  product is exact when the smaller magnitude times epsilon is itself a \<^verbatim>\<open>float\<close>, that
  is, when the product does not underflow.
\<close>

fun tolerance_exact :: "fpval \<Rightarrow> fpval \<Rightarrow> bool" where
  "tolerance_exact (Fin s m) (Fin t n) \<longleftrightarrow>
     representable binary32 m \<and> representable binary32 n
     \<and> representable binary32 (min m n / 8388608)"
| "tolerance_exact _ _ \<longleftrightarrow> False"

text \<open>The right-hand side of the comparison in \<open>IsEqual\<close>.\<close>

definition tolerance :: "fpval \<Rightarrow> fpval \<Rightarrow> fpval" where
  "tolerance p q = fmul (if fgt (fabs p) (fabs q) then fabs q else fabs p) epsilon"

fun is_zero :: "fpval \<Rightarrow> bool" where
  "is_zero (Fin s m) = (m = 0)"
| "is_zero _ = False"

text \<open>
  The reciprocal that the division keeps in its local \<^verbatim>\<open>recip\<close>.
\<close>

definition reciprocal :: "fpval \<Rightarrow> fpval" where
  "reciprocal s = float_of_double (fdiv_in binary64 (Fin False 1) (double_of_float s))"

text \<open>
  Scaling and dividing back stays in range when nothing overflows and nothing underflows.
  \<^verbatim>\<open>FLT_MIN\<close> is the smallest normal \<^verbatim>\<open>float\<close>. The reciprocal of a finite nonzero scalar
  is in range when its exact value is at least \<^verbatim>\<open>FLT_MIN\<close> and its stored value is finite.
  A finite component is in range for a scalar when it is zero, or when the component and
  its exact product with the scalar are at least \<^verbatim>\<open>FLT_MIN\<close> in magnitude and both the
  rounded product and the final result are finite.
\<close>

fun isfinite :: "fpval \<Rightarrow> bool" where
  "isfinite (Fin s m) = True"
| "isfinite _ = False"

fun magnitude :: "fpval \<Rightarrow> rat" where
  "magnitude (Fin s m) = m"
| "magnitude _ = 0"

definition FLT_MIN :: rat where
  "FLT_MIN = 2 powi (- 126)"

definition reciprocal_in_range :: "fpval \<Rightarrow> bool" where
  "reciprocal_in_range s \<longleftrightarrow>
     is_float s \<and> isfinite s \<and> magnitude s \<noteq> 0
     \<and> FLT_MIN \<le> 1 / magnitude s \<and> isfinite (reciprocal s)"

definition scaling_in_range :: "fpval \<Rightarrow> fpval \<Rightarrow> bool" where
  "scaling_in_range p s \<longleftrightarrow>
     is_float p \<and> isfinite p
     \<and> (magnitude p = 0
        \<or> FLT_MIN \<le> magnitude p \<and> FLT_MIN \<le> magnitude p * magnitude s
          \<and> isfinite (fmul p s) \<and> isfinite (fmul (fmul p s) (reciprocal s)))"

text \<open>
  The value of the C++ expression \<^verbatim>\<open>(v * s) / s == v\<close>; an exception from the division
  counts as not equal.
\<close>

definition Vector2_scale_divide_equal :: "Vector2 \<Rightarrow> fpval \<Rightarrow> bool" where
  "Vector2_scale_divide_equal v s =
     (case fst (Vector2_div [] (Vector2_mul v s) s) of
        Inr res \<Rightarrow> Vector2_eq res v
      | Inl err \<Rightarrow> False)"

definition Vector3_scale_divide_equal :: "Vector3 \<Rightarrow> fpval \<Rightarrow> bool" where
  "Vector3_scale_divide_equal v s =
     (case fst (Vector3_div [] (Vector3_mul v s) s) of
        Inr res \<Rightarrow> Vector3_eq res v
      | Inl err \<Rightarrow> False)"

subsection \<open>Stream output\<close>

text \<open>
  Exactly one of the two macros \<^verbatim>\<open>PRINT_VECTORS_WITH_PARENTHESES\<close> and
  \<^verbatim>\<open>PRINT_VECTORS_BY_COMPONENT\<close> is defined when the header is compiled; the choice is
  the first argument of the printing function. A stream is the text written to it so far.
  How the stream renders a single \<^verbatim>\<open>float\<close> is decided by the C++ library and by
  the formatting state of the stream, not by the header: it is the parameter \<open>fmt\<close>.
\<close>

datatype print_style = PRINT_VECTORS_WITH_PARENTHESES | PRINT_VECTORS_BY_COMPONENT

definition Vector2_print ::
    "print_style \<Rightarrow> (fpval \<Rightarrow> string) \<Rightarrow> string \<Rightarrow> Vector2 \<Rightarrow> string" where
  "Vector2_print style fmt os v =
     (case style of
        PRINT_VECTORS_WITH_PARENTHESES \<Rightarrow>
          os @ ''('' @ fmt (Vector2.x v) @ '','' @ fmt (Vector2.y v) @ '')''
      | PRINT_VECTORS_BY_COMPONENT \<Rightarrow>
          os @ ''x='' @ fmt (Vector2.x v) @ '', y='' @ fmt (Vector2.y v))"

text \<open>
  One such rendering, for the instance below: a stream in its initial formatting state
  prints a \<^verbatim>\<open>float\<close> whose value is a whole number of at most six digits as the
  digits of the number, with a minus sign for a negative one. The instance prints whole
  numbers only, and this rendering marks every other value with a question mark.
\<close>

fun digits :: "nat \<Rightarrow> nat \<Rightarrow> string" where
  "digits 0 n = []"
| "digits (Suc k) n =
     (if n < 10 then [char_of (48 + n)]
      else digits k (n div 10) @ [char_of (48 + n mod 10)])"

fun fmt_whole :: "fpval \<Rightarrow> string" where
  "fmt_whole (Fin s m) =
     (if of_int \<lfloor>m\<rfloor> = m \<and> 0 \<le> m \<and> m < 1000000
      then (if s then ''-'' else []) @ digits 6 (nat \<lfloor>m\<rfloor>)
      else ''?'')"
| "fmt_whole _ = ''?''"

subsection \<open>Pixel format names\<close>

text \<open>
  The enumerators of \<^verbatim>\<open>PixelFormat\<close> are declared in raylib.h, which is not part of the
  repository; their integer values are the parameter \<open>E\<close> of the lookup. The
  \<^verbatim>\<open>switch\<close> compares the argument with each enumerator in turn.
\<close>

datatype PixelFormat =
    PIXELFORMAT_UNCOMPRESSED_GRAYSCALE
  | PIXELFORMAT_UNCOMPRESSED_GRAY_ALPHA
  | PIXELFORMAT_UNCOMPRESSED_R5G6B5
  | PIXELFORMAT_UNCOMPRESSED_R8G8B8
  | PIXELFORMAT_UNCOMPRESSED_R5G5B5A1
  | PIXELFORMAT_UNCOMPRESSED_R4G4B4A4
  | PIXELFORMAT_UNCOMPRESSED_R8G8B8A8
  | PIXELFORMAT_UNCOMPRESSED_R32
  | PIXELFORMAT_UNCOMPRESSED_R32G32B32
  | PIXELFORMAT_UNCOMPRESSED_R32G32B32A32
  | PIXELFORMAT_COMPRESSED_DXT1_RGB
  | PIXELFORMAT_COMPRESSED_DXT1_RGBA
  | PIXELFORMAT_COMPRESSED_DXT3_RGBA
  | PIXELFORMAT_COMPRESSED_DXT5_RGBA
  | PIXELFORMAT_COMPRESSED_ETC1_RGB
  | PIXELFORMAT_COMPRESSED_ETC2_RGB
  | PIXELFORMAT_COMPRESSED_ETC2_EAC_RGBA
  | PIXELFORMAT_COMPRESSED_PVRT_RGB
  | PIXELFORMAT_COMPRESSED_PVRT_RGBA
  | PIXELFORMAT_COMPRESSED_ASTC_4x4_RGBA
  | PIXELFORMAT_COMPRESSED_ASTC_8x8_RGBA

definition PixelFormatNumberToName :: "(PixelFormat \<Rightarrow> int) \<Rightarrow> int \<Rightarrow> string" where
  "PixelFormatNumberToName E format =
     (if format = E PIXELFORMAT_UNCOMPRESSED_GRAYSCALE
        then ''PIXELFORMAT_UNCOMPRESSED_GRAYSCALE, 8 bit per pixel (no alpha)''
      else if format = E PIXELFORMAT_UNCOMPRESSED_GRAY_ALPHA
        then ''PIXELFORMAT_UNCOMPRESSED_GRAY_ALPHA, 8*2 bpp (2 channels)''
      else if format = E PIXELFORMAT_UNCOMPRESSED_R5G6B5
        then ''PIXELFORMAT_UNCOMPRESSED_R5G6B5, 16 bpp''
      else if format = E PIXELFORMAT_UNCOMPRESSED_R8G8B8
        then ''PIXELFORMAT_UNCOMPRESSED_R8G8B8, 24 bpp''
      else if format = E PIXELFORMAT_UNCOMPRESSED_R5G5B5A1
        then ''PIXELFORMAT_UNCOMPRESSED_R5G5B5A1, 16 bpp (1 bit alpha)''
      else if format = E PIXELFORMAT_UNCOMPRESSED_R4G4B4A4
        then ''PIXELFORMAT_UNCOMPRESSED_R4G4B4A4, 16 bpp (4 bit alpha)''
      else if format = E PIXELFORMAT_UNCOMPRESSED_R8G8B8A8
        then ''PIXELFORMAT_UNCOMPRESSED_R8G8B8A8, 32 bpp''
      else if format = E PIXELFORMAT_UNCOMPRESSED_R32
        then ''PIXELFORMAT_UNCOMPRESSED_R32, 32 bpp (1 channel - float)''
      else if format = E PIXELFORMAT_UNCOMPRESSED_R32G32B32
        then ''PIXELFORMAT_UNCOMPRESSED_R32G32B32, 32*3 bpp (3 channels - float)''
      else if format = E PIXELFORMAT_UNCOMPRESSED_R32G32B32A32
        then ''PIXELFORMAT_UNCOMPRESSED_R32G32B32A32, 32*4 bpp (4 channels - float)''
      else if format = E PIXELFORMAT_COMPRESSED_DXT1_RGB
        then ''PIXELFORMAT_COMPRESSED_DXT1_RGB, 4 bpp (no alpha)''
      else if format = E PIXELFORMAT_COMPRESSED_DXT1_RGBA
        then ''PIXELFORMAT_COMPRESSED_DXT1_RGBA, 4 bpp (1 bit alpha)''
      else if format = E PIXELFORMAT_COMPRESSED_DXT3_RGBA
        then ''PIXELFORMAT_COMPRESSED_DXT3_RGBA, 8 bpp''
      else if format = E PIXELFORMAT_COMPRESSED_DXT5_RGBA
        then ''PIXELFORMAT_COMPRESSED_DXT5_RGBA, 8 bpp''
      else if format = E PIXELFORMAT_COMPRESSED_ETC1_RGB
        then ''PIXELFORMAT_COMPRESSED_ETC1_RGB, 4 bpp''
      else if format = E PIXELFORMAT_COMPRESSED_ETC2_RGB
        then ''PIXELFORMAT_COMPRESSED_ETC2_RGB, 4 bpp''
      else if format = E PIXELFORMAT_COMPRESSED_ETC2_EAC_RGBA
        then ''PIXELFORMAT_COMPRESSED_ETC2_EAC_RGBA, 8 bpp''
      else if format = E PIXELFORMAT_COMPRESSED_PVRT_RGB
        then ''PIXELFORMAT_COMPRESSED_PVRT_RGB, 4 bpp''
      else if format = E PIXELFORMAT_COMPRESSED_PVRT_RGBA
        then ''PIXELFORMAT_COMPRESSED_PVRT_RGBA, 4 bpp''
      else if format = E PIXELFORMAT_COMPRESSED_ASTC_4x4_RGBA
        then ''PIXELFORMAT_COMPRESSED_ASTC_4x4_RGBA, 8 bpp''
      else if format = E PIXELFORMAT_COMPRESSED_ASTC_8x8_RGBA
        then ''PIXELFORMAT_COMPRESSED_ASTC_8x8_RGBA, 2 bpp''
      else ''Unrecognized PixelFormat number'')"

text \<open>The string the header attaches to each enumerator.\<close>

fun PixelFormat_description :: "PixelFormat \<Rightarrow> string" where
  "PixelFormat_description PIXELFORMAT_UNCOMPRESSED_GRAYSCALE =
     ''PIXELFORMAT_UNCOMPRESSED_GRAYSCALE, 8 bit per pixel (no alpha)''"
| "PixelFormat_description PIXELFORMAT_UNCOMPRESSED_GRAY_ALPHA =
     ''PIXELFORMAT_UNCOMPRESSED_GRAY_ALPHA, 8*2 bpp (2 channels)''"
| "PixelFormat_description PIXELFORMAT_UNCOMPRESSED_R5G6B5 =
     ''PIXELFORMAT_UNCOMPRESSED_R5G6B5, 16 bpp''"
| "PixelFormat_description PIXELFORMAT_UNCOMPRESSED_R8G8B8 =
     ''PIXELFORMAT_UNCOMPRESSED_R8G8B8, 24 bpp''"
| "PixelFormat_description PIXELFORMAT_UNCOMPRESSED_R5G5B5A1 =
     ''PIXELFORMAT_UNCOMPRESSED_R5G5B5A1, 16 bpp (1 bit alpha)''"
| "PixelFormat_description PIXELFORMAT_UNCOMPRESSED_R4G4B4A4 =
     ''PIXELFORMAT_UNCOMPRESSED_R4G4B4A4, 16 bpp (4 bit alpha)''"
| "PixelFormat_description PIXELFORMAT_UNCOMPRESSED_R8G8B8A8 =
     ''PIXELFORMAT_UNCOMPRESSED_R8G8B8A8, 32 bpp''"
| "PixelFormat_description PIXELFORMAT_UNCOMPRESSED_R32 =
     ''PIXELFORMAT_UNCOMPRESSED_R32, 32 bpp (1 channel - float)''"
| "PixelFormat_description PIXELFORMAT_UNCOMPRESSED_R32G32B32 =
     ''PIXELFORMAT_UNCOMPRESSED_R32G32B32, 32*3 bpp (3 channels - float)''"
| "PixelFormat_description PIXELFORMAT_UNCOMPRESSED_R32G32B32A32 =
     ''PIXELFORMAT_UNCOMPRESSED_R32G32B32A32, 32*4 bpp (4 channels - float)''"
| "PixelFormat_description PIXELFORMAT_COMPRESSED_DXT1_RGB =
     ''PIXELFORMAT_COMPRESSED_DXT1_RGB, 4 bpp (no alpha)''"
| "PixelFormat_description PIXELFORMAT_COMPRESSED_DXT1_RGBA =
     ''PIXELFORMAT_COMPRESSED_DXT1_RGBA, 4 bpp (1 bit alpha)''"
| "PixelFormat_description PIXELFORMAT_COMPRESSED_DXT3_RGBA =
     ''PIXELFORMAT_COMPRESSED_DXT3_RGBA, 8 bpp''"
| "PixelFormat_description PIXELFORMAT_COMPRESSED_DXT5_RGBA =
     ''PIXELFORMAT_COMPRESSED_DXT5_RGBA, 8 bpp''"
| "PixelFormat_description PIXELFORMAT_COMPRESSED_ETC1_RGB =
     ''PIXELFORMAT_COMPRESSED_ETC1_RGB, 4 bpp''"
| "PixelFormat_description PIXELFORMAT_COMPRESSED_ETC2_RGB =
     ''PIXELFORMAT_COMPRESSED_ETC2_RGB, 4 bpp''"
| "PixelFormat_description PIXELFORMAT_COMPRESSED_ETC2_EAC_RGBA =
     ''PIXELFORMAT_COMPRESSED_ETC2_EAC_RGBA, 8 bpp''"
| "PixelFormat_description PIXELFORMAT_COMPRESSED_PVRT_RGB =
     ''PIXELFORMAT_COMPRESSED_PVRT_RGB, 4 bpp''"
| "PixelFormat_description PIXELFORMAT_COMPRESSED_PVRT_RGBA =
     ''PIXELFORMAT_COMPRESSED_PVRT_RGBA, 4 bpp''"
| "PixelFormat_description PIXELFORMAT_COMPRESSED_ASTC_4x4_RGBA =
     ''PIXELFORMAT_COMPRESSED_ASTC_4x4_RGBA, 8 bpp''"
| "PixelFormat_description PIXELFORMAT_COMPRESSED_ASTC_8x8_RGBA =
     ''PIXELFORMAT_COMPRESSED_ASTC_8x8_RGBA, 2 bpp''"

text \<open>
  Modelled from the spec: the values raylib.h gives the enumerators, which the spec calls
  a finite enumeration of integer codes; raylib numbers them from 1 in the order of
  declaration.
\<close>

fun raylib_PixelFormat :: "PixelFormat \<Rightarrow> int" where
  "raylib_PixelFormat PIXELFORMAT_UNCOMPRESSED_GRAYSCALE = 1"
| "raylib_PixelFormat PIXELFORMAT_UNCOMPRESSED_GRAY_ALPHA = 2"
| "raylib_PixelFormat PIXELFORMAT_UNCOMPRESSED_R5G6B5 = 3"
| "raylib_PixelFormat PIXELFORMAT_UNCOMPRESSED_R8G8B8 = 4"
| "raylib_PixelFormat PIXELFORMAT_UNCOMPRESSED_R5G5B5A1 = 5"
| "raylib_PixelFormat PIXELFORMAT_UNCOMPRESSED_R4G4B4A4 = 6"
| "raylib_PixelFormat PIXELFORMAT_UNCOMPRESSED_R8G8B8A8 = 7"
| "raylib_PixelFormat PIXELFORMAT_UNCOMPRESSED_R32 = 8"
| "raylib_PixelFormat PIXELFORMAT_UNCOMPRESSED_R32G32B32 = 9"
| "raylib_PixelFormat PIXELFORMAT_UNCOMPRESSED_R32G32B32A32 = 10"
| "raylib_PixelFormat PIXELFORMAT_COMPRESSED_DXT1_RGB = 11"
| "raylib_PixelFormat PIXELFORMAT_COMPRESSED_DXT1_RGBA = 12"
| "raylib_PixelFormat PIXELFORMAT_COMPRESSED_DXT3_RGBA = 13"
| "raylib_PixelFormat PIXELFORMAT_COMPRESSED_DXT5_RGBA = 14"
| "raylib_PixelFormat PIXELFORMAT_COMPRESSED_ETC1_RGB = 15"
| "raylib_PixelFormat PIXELFORMAT_COMPRESSED_ETC2_RGB = 16"
| "raylib_PixelFormat PIXELFORMAT_COMPRESSED_ETC2_EAC_RGBA = 17"
| "raylib_PixelFormat PIXELFORMAT_COMPRESSED_PVRT_RGB = 18"
| "raylib_PixelFormat PIXELFORMAT_COMPRESSED_PVRT_RGBA = 19"
| "raylib_PixelFormat PIXELFORMAT_COMPRESSED_ASTC_4x4_RGBA = 20"
| "raylib_PixelFormat PIXELFORMAT_COMPRESSED_ASTC_8x8_RGBA = 21"

definition all_PixelFormats :: "PixelFormat list" where
  "all_PixelFormats =
    [PIXELFORMAT_UNCOMPRESSED_GRAYSCALE,
     PIXELFORMAT_UNCOMPRESSED_GRAY_ALPHA,
     PIXELFORMAT_UNCOMPRESSED_R5G6B5,
     PIXELFORMAT_UNCOMPRESSED_R8G8B8,
     PIXELFORMAT_UNCOMPRESSED_R5G5B5A1,
     PIXELFORMAT_UNCOMPRESSED_R4G4B4A4,
     PIXELFORMAT_UNCOMPRESSED_R8G8B8A8,
     PIXELFORMAT_UNCOMPRESSED_R32,
     PIXELFORMAT_UNCOMPRESSED_R32G32B32,
     PIXELFORMAT_UNCOMPRESSED_R32G32B32A32,
     PIXELFORMAT_COMPRESSED_DXT1_RGB,
     PIXELFORMAT_COMPRESSED_DXT1_RGBA,
     PIXELFORMAT_COMPRESSED_DXT3_RGBA,
     PIXELFORMAT_COMPRESSED_DXT5_RGBA,
     PIXELFORMAT_COMPRESSED_ETC1_RGB,
     PIXELFORMAT_COMPRESSED_ETC2_RGB,
     PIXELFORMAT_COMPRESSED_ETC2_EAC_RGBA,
     PIXELFORMAT_COMPRESSED_PVRT_RGB,
     PIXELFORMAT_COMPRESSED_PVRT_RGBA,
     PIXELFORMAT_COMPRESSED_ASTC_4x4_RGBA,
     PIXELFORMAT_COMPRESSED_ASTC_8x8_RGBA]"

section \<open>Properties\<close>

subsection \<open>Colour addition and subtraction\<close>

text \<open>
  C1. In \<^verbatim>\<open>operator+(Color,Color)\<close> and \<^verbatim>\<open>operator-(Color,Color)\<close>, for every pair of
  input colours, the clamped alpha result is written into the red channel of the returned
  colour, overwriting the red result written before, and the alpha field of the returned
  colour is never assigned: the result is the uninitialised local with green and blue set to
  their clamped results, red set to the clamped alpha result, and alpha as it was.
\<close>

theorem Color_add_sub_alpha_in_red:
  "Color_add c p q =
     c\<lparr>g := word_of_int (min 255 (uint (g p) + uint (g q))),
       b := word_of_int (min 255 (uint (b p) + uint (b q))),
       r := word_of_int (min 255 (uint (a p) + uint (a q)))\<rparr>
   \<and> Color.a (Color_add c p q) = Color.a c
   \<and> Color_sub c p q =
     c\<lparr>g := word_of_int (max 0 (uint (g p) - uint (g q))),
       b := word_of_int (max 0 (uint (b p) - uint (b q))),
       r := word_of_int (max 0 (uint (a p) - uint (a q)))\<rparr>
   \<and> Color.a (Color_sub c p q) = Color.a c"
  by (simp add: Color_add_def Color_sub_def Let_def min_def max_def)

subsection \<open>Colour multiplication\<close>

lemma float_of_int_consts: "float_of_int 255 = Fin False 255" "float_of_int 0 = Fin False 0"
  by (simp_all add: float_of_int_def)

lemma Color_mul_eq:
  "Color_mul c p q =
     c\<lparr>g := word_of_int (min 255 (uint (g p) * uint (g q))),
       b := word_of_int (min 255 (uint (b p) * uint (b q))),
       r := word_of_int (min 255 (uint (a p) * uint (a q)))\<rparr>"
proof -
  have nn: "\<not> uint u * uint v < 0" for u v :: uchar
    by (simp add: not_less)
  show ?thesis
    by (simp add: Color_mul_def Let_def min_def nn)
qed

lemma Color_mul_float_eq:
  "Color_mul_float ub c p s =
     c\<lparr>g := uchar_of_float ub (saturate (fmul (float_of_uchar (g p)) s)),
       b := uchar_of_float ub (saturate (fmul (float_of_uchar (b p)) s)),
       r := uchar_of_float ub (saturate (fmul (float_of_uchar (a p)) s))\<rparr>"
  by (simp add: Color_mul_float_def Let_def saturate_def float_of_int_consts)

text \<open>
  C9. \<^verbatim>\<open>operator*(Color,Color)\<close> and \<^verbatim>\<open>operator*(Color,float)\<close> have the defect of
  addition and subtraction: for every input the clamped alpha result is written into the
  red channel of the returned colour, and the alpha field of the returned colour is never
  assigned.
\<close>

theorem Color_mul_alpha_in_red:
  "Color_mul c p q =
     c\<lparr>g := word_of_int (min 255 (uint (g p) * uint (g q))),
       b := word_of_int (min 255 (uint (b p) * uint (b q))),
       r := word_of_int (min 255 (uint (a p) * uint (a q)))\<rparr>
   \<and> Color.a (Color_mul c p q) = Color.a c
   \<and> Color_mul_float ub c p s =
     c\<lparr>g := uchar_of_float ub (saturate (fmul (float_of_uchar (g p)) s)),
       b := uchar_of_float ub (saturate (fmul (float_of_uchar (b p)) s)),
       r := uchar_of_float ub (saturate (fmul (float_of_uchar (a p)) s))\<rparr>
   \<and> Color.a (Color_mul_float ub c p s) = Color.a c"
  by (simp add: Color_mul_eq Color_mul_float_eq)

subsection \<open>Division by zero\<close>

text \<open>
  C3. For every Vector2 or Vector3, dividing by a scalar that is exactly zero (of either
  sign) writes the diagnostic line to the error stream and raises the domain error; no
  vector, finite or not, is returned.
\<close>

theorem Vector_div_by_zero_throws:
  "Vector2_div cerr u (Fin sg 0) =
     (Inl (domain_error ''Division by zero error''), cerr @ ''Division by zero error.'' @ endl)
   \<and> Vector3_div cerr v (Fin sg 0) =
     (Inl (domain_error ''Division by zero error''), cerr @ ''Division by zero error.'' @ endl)"
  by (simp add: Vector2_div_def Vector3_div_def double_of_float_def fval_def)

subsection \<open>Unary minus\<close>

text \<open>
  C8. Unary minus on Vector2 and Vector3 mutates its argument in place: after \<open>-a\<close> the
  variable \<open>a\<close> holds the componentwise negation of its prior value, every other variable
  is unchanged, and the reference returned is the one to \<open>a\<close> itself, not to a copy.
\<close>

theorem Vector_neg_in_place:
  "Vector2_neg st2 p =
     (p, st2(p := \<lparr>Vector2.x = fneg (Vector2.x (st2 p)), Vector2.y = fneg (Vector2.y (st2 p))\<rparr>))
   \<and> Vector3_neg st3 p =
     (p, st3(p := \<lparr>Vector3.x = fneg (Vector3.x (st3 p)), Vector3.y = fneg (Vector3.y (st3 p)),
                   Vector3.z = fneg (Vector3.z (st3 p))\<rparr>))"
  by (simp add: Vector2_neg_def Vector3_neg_def Vector2Negate_def Vector3Negate_def)

subsection \<open>Saturation of colour channels\<close>

lemma uint_byte: "0 \<le> k \<Longrightarrow> k \<le> 255 \<Longrightarrow> uint (word_of_int k :: uchar) = k"
  by (simp add: uint_word_of_int_eq take_bit_int_eq_self)

lemma byte_range_uint: "byte_range (uint (u :: uchar))"
proof -
  have "uint u < 2 ^ LENGTH(8)" by (rule uint_lt2p)
  then show ?thesis by (simp add: byte_range_def)
qed

lemma channels_in_range: "list_all byte_range (channels c)"
  by (simp add: channels_def byte_range_uint)

lemma Color_add_channels:
  "uint (r (Color_add c p q)) = min 255 (uint (a p) + uint (a q))"
  "uint (g (Color_add c p q)) = min 255 (uint (g p) + uint (g q))"
  "uint (b (Color_add c p q)) = min 255 (uint (b p) + uint (b q))"
  by (simp_all add: Color_add_def Let_def uint_byte min_def)

lemma Color_sub_channels:
  "uint (r (Color_sub c p q)) = max 0 (uint (a p) - uint (a q))"
  "uint (g (Color_sub c p q)) = max 0 (uint (g p) - uint (g q))"
  "uint (b (Color_sub c p q)) = max 0 (uint (b p) - uint (b q))"
proof -
  have le: "uint u - uint v \<le> 255" for u v :: uchar
  proof -
    have "uint u \<le> 255" using byte_range_uint [of u] by (simp add: byte_range_def)
    moreover have "0 \<le> uint v" by simp
    ultimately show ?thesis by linarith
  qed
  show "uint (r (Color_sub c p q)) = max 0 (uint (a p) - uint (a q))"
    "uint (g (Color_sub c p q)) = max 0 (uint (g p) - uint (g q))"
    "uint (b (Color_sub c p q)) = max 0 (uint (b p) - uint (b q))"
    by (simp_all add: Color_sub_def Let_def uint_byte max_def le)
qed

lemma Color_mul_channels:
  "uint (r (Color_mul c p q)) = min 255 (uint (a p) * uint (a q))"
  "uint (g (Color_mul c p q)) = min 255 (uint (g p) * uint (g q))"
  "uint (b (Color_mul c p q)) = min 255 (uint (b p) * uint (b q))"
proof -
  have nn: "\<not> uint u * uint v < 0" "0 \<le> uint u * uint v" for u v :: uchar
    by (simp_all add: not_less)
  show "uint (r (Color_mul c p q)) = min 255 (uint (a p) * uint (a q))"
    "uint (g (Color_mul c p q)) = min 255 (uint (g p) * uint (g q))"
    "uint (b (Color_mul c p q)) = min 255 (uint (b p) * uint (b q))"
    by (simp_all add: Color_mul_def Let_def uint_byte min_def nn)
qed

lemma uchar_of_saturate:
  "uint (uchar_of_float ub (saturate v)) =
     (if fgt v (Fin False 255) then 255 else if flt v (Fin False 0) then 0
      else uint (uchar_of_float ub v))"
  by (simp add: saturate_def fval_def trunc_def)

lemma Color_mul_float_channels:
  "uint (r (Color_mul_float ub c p s)) =
     (let v = fmul (float_of_uchar (a p)) s
      in if fgt v (Fin False 255) then 255 else if flt v (Fin False 0) then 0
         else uint (uchar_of_float ub v))"
  "uint (g (Color_mul_float ub c p s)) =
     (let v = fmul (float_of_uchar (g p)) s
      in if fgt v (Fin False 255) then 255 else if flt v (Fin False 0) then 0
         else uint (uchar_of_float ub v))"
  "uint (b (Color_mul_float ub c p s)) =
     (let v = fmul (float_of_uchar (b p)) s
      in if fgt v (Fin False 255) then 255 else if flt v (Fin False 0) then 0
         else uint (uchar_of_float ub v))"
  by (simp_all add: Color_mul_float_eq Let_def uchar_of_saturate)

text \<open>
  C2. Every channel of the colour returned by colour addition, subtraction, multiplication
  by a colour and multiplication by a scalar lies in \<open>[0,255]\<close>, and each channel the
  overload writes holds the saturated intermediate: a value above 255 becomes 255 and a
  value below 0 becomes 0, without wrapping. In particular
  \<open>Color{250,10,0,255} + Color{10,250,0,0}\<close> has red and green channels 255 and blue
  channel 0.
\<close>

theorem Color_channels_saturate:
  "list_all byte_range (channels (Color_add c p q))
   \<and> list_all byte_range (channels (Color_sub c p q))
   \<and> list_all byte_range (channels (Color_mul c p q))
   \<and> list_all byte_range (channels (Color_mul_float ub c p s))
   \<and> uint (r (Color_add c p q)) = min 255 (uint (a p) + uint (a q))
   \<and> uint (g (Color_add c p q)) = min 255 (uint (g p) + uint (g q))
   \<and> uint (b (Color_add c p q)) = min 255 (uint (b p) + uint (b q))
   \<and> uint (r (Color_sub c p q)) = max 0 (uint (a p) - uint (a q))
   \<and> uint (g (Color_sub c p q)) = max 0 (uint (g p) - uint (g q))
   \<and> uint (b (Color_sub c p q)) = max 0 (uint (b p) - uint (b q))
   \<and> uint (r (Color_mul c p q)) = min 255 (uint (a p) * uint (a q))
   \<and> uint (g (Color_mul c p q)) = min 255 (uint (g p) * uint (g q))
   \<and> uint (b (Color_mul c p q)) = min 255 (uint (b p) * uint (b q))
   \<and> uint (r (Color_mul_float ub c p s)) =
       (let v = fmul (float_of_uchar (a p)) s
        in if fgt v (Fin False 255) then 255 else if flt v (Fin False 0) then 0
           else uint (uchar_of_float ub v))
   \<and> uint (g (Color_mul_float ub c p s)) =
       (let v = fmul (float_of_uchar (g p)) s
        in if fgt v (Fin False 255) then 255 else if flt v (Fin False 0) then 0
           else uint (uchar_of_float ub v))
   \<and> uint (b (Color_mul_float ub c p s)) =
       (let v = fmul (float_of_uchar (b p)) s
        in if fgt v (Fin False 255) then 255 else if flt v (Fin False 0) then 0
           else uint (uchar_of_float ub v))
   \<and> r (Color_add c \<lparr>r = 250, g = 10, b = 0, a = 255\<rparr> \<lparr>r = 10, g = 250, b = 0, a = 0\<rparr>) = 255
   \<and> g (Color_add c \<lparr>r = 250, g = 10, b = 0, a = 255\<rparr> \<lparr>r = 10, g = 250, b = 0, a = 0\<rparr>) = 255
   \<and> b (Color_add c \<lparr>r = 250, g = 10, b = 0, a = 255\<rparr> \<lparr>r = 10, g = 250, b = 0, a = 0\<rparr>) = 0"
proof -
  have ex: "r (Color_add c \<lparr>r = 250, g = 10, b = 0, a = 255\<rparr> \<lparr>r = 10, g = 250, b = 0, a = 0\<rparr>) = 255"
    "g (Color_add c \<lparr>r = 250, g = 10, b = 0, a = 255\<rparr> \<lparr>r = 10, g = 250, b = 0, a = 0\<rparr>) = 255"
    "b (Color_add c \<lparr>r = 250, g = 10, b = 0, a = 255\<rparr> \<lparr>r = 10, g = 250, b = 0, a = 0\<rparr>) = 0"
    by (simp_all add: Color_add_def Let_def)
  show ?thesis
    by (intro conjI channels_in_range Color_add_channels Color_sub_channels
        Color_mul_channels Color_mul_float_channels ex)
qed

subsection \<open>Pixel format names\<close>

lemma PixelFormatNumberToName_known:
  assumes "inj E"
  shows "PixelFormatNumberToName E (E f) = PixelFormat_description f"
  by (cases f) (simp_all add: PixelFormatNumberToName_def inj_eq [OF assms])

lemma PixelFormatNumberToName_unknown:
  assumes "n \<notin> range E"
  shows "PixelFormatNumberToName E n = ''Unrecognized PixelFormat number''"
proof -
  have "n \<noteq> E f" for f
    using assms by auto
  then show ?thesis
    by (simp add: PixelFormatNumberToName_def)
qed

text \<open>
  C6. \<^verbatim>\<open>PixelFormatNumberToName\<close> is total: it has no error result, and for every
  integer it returns one of its fixed strings. Each recognised format code returns its
  descriptive string and every other integer returns the fallback string. (The values of
  the enumerators are distinct, as the labels of a \<^verbatim>\<open>switch\<close> must be.)
\<close>

theorem PixelFormatNumberToName_total:
  assumes "inj E"
  shows "(\<forall>f. PixelFormatNumberToName E (E f) = PixelFormat_description f)
    \<and> (\<forall>n. n \<notin> range E \<longrightarrow>
          PixelFormatNumberToName E n = ''Unrecognized PixelFormat number'')
    \<and> (\<forall>n. PixelFormatNumberToName E n \<in>
          insert ''Unrecognized PixelFormat number'' (set (map PixelFormat_description all_PixelFormats)))"
proof (intro conjI allI impI)
  fix f show "PixelFormatNumberToName E (E f) = PixelFormat_description f"
    by (rule PixelFormatNumberToName_known [OF assms])
next
  fix n assume "n \<notin> range E"
  then show "PixelFormatNumberToName E n = ''Unrecognized PixelFormat number''"
    by (rule PixelFormatNumberToName_unknown)
next
  fix n
  have all: "f \<in> set all_PixelFormats" for f
    by (cases f) (simp_all add: all_PixelFormats_def)
  show "PixelFormatNumberToName E n \<in>
          insert ''Unrecognized PixelFormat number'' (set (map PixelFormat_description all_PixelFormats))"
  proof (cases "n \<in> range E")
    case True
    then obtain f where "n = E f" by auto
    then have "PixelFormatNumberToName E n = PixelFormat_description f"
      by (simp add: PixelFormatNumberToName_known [OF assms])
    then show ?thesis using all [of f] by simp
  next
    case False
    then show ?thesis by (simp add: PixelFormatNumberToName_unknown)
  qed
qed

lemma raylib_PixelFormat_range: "1 \<le> raylib_PixelFormat f \<and> raylib_PixelFormat f \<le> 21"
  by (cases f) simp_all

lemma inj_raylib_PixelFormat: "inj raylib_PixelFormat"
proof (rule injI)
  fix f f' assume "raylib_PixelFormat f = raylib_PixelFormat f'"
  then show "f = f'"
    by (cases f; cases f'; simp)
qed

theorem PixelFormatNumberToName_total_witness:
  "inj raylib_PixelFormat
   \<and> PixelFormatNumberToName raylib_PixelFormat 7 = ''PIXELFORMAT_UNCOMPRESSED_R8G8B8A8, 32 bpp''
   \<and> 0 \<notin> range raylib_PixelFormat
   \<and> PixelFormatNumberToName raylib_PixelFormat 0 = ''Unrecognized PixelFormat number''"
proof -
  have z: "0 \<notin> range raylib_PixelFormat"
  proof
    assume "0 \<in> range raylib_PixelFormat"
    then obtain f where "raylib_PixelFormat f = 0" by auto
    with raylib_PixelFormat_range [of f] show False by simp
  qed
  have s: "raylib_PixelFormat PIXELFORMAT_UNCOMPRESSED_R8G8B8A8 = 7" by simp
  note t = PixelFormatNumberToName_total [OF inj_raylib_PixelFormat]
  from t have "PixelFormatNumberToName raylib_PixelFormat (raylib_PixelFormat PIXELFORMAT_UNCOMPRESSED_R8G8B8A8)
      = PixelFormat_description PIXELFORMAT_UNCOMPRESSED_R8G8B8A8" by blast
  moreover from t z have "PixelFormatNumberToName raylib_PixelFormat 0 = ''Unrecognized PixelFormat number''"
    by blast
  ultimately show ?thesis
    using z inj_raylib_PixelFormat by (simp only: s PixelFormat_description.simps simp_thms)
qed

subsection \<open>Printing a vector\<close>

text \<open>
  C7. Printing \<open>Vector2{3,4}\<close> to a stream that renders the two numbers as \<open>3\<close> and
  \<open>4\<close> appends exactly \<open>x=3, y=4\<close> in the labelled style and exactly \<open>(3,4)\<close> in the
  parenthesised style.
\<close>

theorem Vector2_print_3_4:
  assumes "fmt (Fin False 3) = ''3''" and "fmt (Fin False 4) = ''4''"
  shows "Vector2_print PRINT_VECTORS_BY_COMPONENT fmt os
           \<lparr>Vector2.x = Fin False 3, Vector2.y = Fin False 4\<rparr> = os @ ''x=3, y=4''
       \<and> Vector2_print PRINT_VECTORS_WITH_PARENTHESES fmt os
           \<lparr>Vector2.x = Fin False 3, Vector2.y = Fin False 4\<rparr> = os @ ''(3,4)''"
  using assms by (simp add: Vector2_print_def)

lemma fmt_whole_3_4: "fmt_whole (Fin False 3) = ''3''" "fmt_whole (Fin False 4) = ''4''"
  by code_simp+

theorem Vector2_print_3_4_witness:
  "fmt_whole (Fin False 3) = ''3'' \<and> fmt_whole (Fin False 4) = ''4''
   \<and> Vector2_print PRINT_VECTORS_BY_COMPONENT fmt_whole []
        \<lparr>Vector2.x = Fin False 3, Vector2.y = Fin False 4\<rparr> = ''x=3, y=4''
   \<and> Vector2_print PRINT_VECTORS_WITH_PARENTHESES fmt_whole []
        \<lparr>Vector2.x = Fin False 3, Vector2.y = Fin False 4\<rparr> = ''(3,4)''"
  using Vector2_print_3_4 [OF fmt_whole_3_4, of "[]"] fmt_whole_3_4 by simp

subsection \<open>Rounding\<close>

text \<open>
  The exponent \<open>ilog2\<close> brackets its argument between two consecutive powers of two, and
  \<open>rne\<close> moves its argument by at most one half.
\<close>

lemma powi_nat: "0 \<le> k \<Longrightarrow> (2::rat) powi k = 2 ^ nat k"
  by (simp add: power_int_def)

lemma ilog2_bounds:
  assumes "0 < q"
  shows "2 powi ilog2 q \<le> q \<and> q < 2 powi (ilog2 q + 1)"
proof -
  obtain n d where nd: "quotient_of q = (n, d)" by (cases "quotient_of q")
  then have d: "0 < d" by (rule quotient_of_denom_pos)
  from nd have q: "q = of_int n / of_int d" by (rule quotient_of_div)
  with assms d have n: "0 < n" by (simp add: zero_less_divide_iff)
  define bn where "bn = bitlen n"
  define bd where "bd = bitlen d"
  from bitlen_bounds [OF n] have n1: "2 ^ nat (bn - 1) \<le> n" and n2: "n < 2 ^ nat bn"
    by (simp_all add: bn_def)
  from bitlen_bounds [OF d] have d1: "2 ^ nat (bd - 1) \<le> d" and d2: "d < 2 ^ nat bd"
    by (simp_all add: bd_def)
  have bn: "1 \<le> bn" using n n2 by (cases "bn \<le> 0") auto
  have bd: "1 \<le> bd" using d d2 by (cases "bd \<le> 0") auto
  have rn1: "(2::rat) powi (bn - 1) \<le> of_int n"
  proof -
    have "(of_int (2 ^ nat (bn - 1)) :: rat) \<le> of_int n" using n1 by (simp only: of_int_le_iff)
    then show ?thesis using bn by (simp add: powi_nat)
  qed
  have rn2: "of_int n < (2::rat) powi bn"
  proof -
    have "(of_int n :: rat) < of_int (2 ^ nat bn)" using n2 by (simp only: of_int_less_iff)
    then show ?thesis using bn by (simp add: powi_nat)
  qed
  have rd1: "(2::rat) powi (bd - 1) \<le> of_int d"
  proof -
    have "(of_int (2 ^ nat (bd - 1)) :: rat) \<le> of_int d" using d1 by (simp only: of_int_le_iff)
    then show ?thesis using bd by (simp add: powi_nat)
  qed
  have rd2: "of_int d < (2::rat) powi bd"
  proof -
    have "(of_int d :: rat) < of_int (2 ^ nat bd)" using d2 by (simp only: of_int_less_iff)
    then show ?thesis using bd by (simp add: powi_nat)
  qed
  have dpos: "(0::rat) < of_int d" using d by simp
  have upper: "q < 2 powi (bn - bd + 1)"
  proof -
    have "of_int n * (2::rat) powi (bd - 1) < 2 powi bn * of_int d"
      using rn2 rd1 dpos n by (intro mult_less_le_imp_less) simp_all
    then have "of_int n < 2 powi bn * of_int d / (2::rat) powi (bd - 1)"
      by (simp add: pos_less_divide_eq)
    then have "of_int n < (2::rat) powi (bn - bd + 1) * of_int d"
      by (simp add: power_int_diff power_int_add field_simps)
    then show ?thesis using dpos by (simp add: q pos_divide_less_eq)
  qed
  have lower: "2 powi (bn - bd - 1) \<le> q"
  proof -
    have "(2::rat) powi (bn - 1) * of_int d \<le> of_int n * 2 powi bd"
      using rn1 rd2 dpos n by (intro mult_mono) (simp_all add: less_imp_le)
    then have "(2::rat) powi (bn - 1) * of_int d / 2 powi bd \<le> of_int n"
      by (simp add: pos_divide_le_eq)
    then have "(2::rat) powi (bn - bd - 1) * of_int d \<le> of_int n"
      by (simp add: power_int_diff power_int_add field_simps)
    then show ?thesis using dpos by (simp add: q pos_le_divide_eq)
  qed
  show ?thesis
  proof (cases "2 powi (bn - bd) \<le> q")
    case True
    then have "ilog2 q = bn - bd" by (simp add: ilog2_def nd bn_def bd_def)
    with True upper show ?thesis by simp
  next
    case False
    then have "ilog2 q = bn - bd - 1" by (simp add: ilog2_def nd bn_def bd_def)
    with False lower show ?thesis by (simp add: not_le)
  qed
qed

lemma rne_nearest: "\<bar>of_int (rne q) - q\<bar> \<le> 1 / 2"
proof -
  have "of_int \<lfloor>q\<rfloor> \<le> q" "q < of_int \<lfloor>q\<rfloor> + 1" by linarith+
  then show ?thesis
    unfolding rne_def Let_def by (simp add: abs_if) linarith
qed

text \<open>
  The rounding on some inputs where the cases of IEEE 754 differ: an inexact quotient, the
  tie at the overflow threshold and the number just below it, and the ties between the
  smallest subnormal numbers.
\<close>

lemma round_signed_examples:
  "round_signed binary32 False (1 / 3) = Fin False (11184811 / 33554432)"
  "round_signed binary32 False (2 ^ 128 - 2 ^ 103) = Infty False"
  "round_signed binary32 False (2 ^ 128 - 2 ^ 103 - 1) = Fin False (2 ^ 128 - 2 ^ 104)"
  "round_signed binary32 True (2 powi - 150) = Fin True 0"
  "round_signed binary32 False (3 * 2 powi - 150) = Fin False (2 powi - 148)"
  "round_signed binary64 False (1 / 3) = Fin False (6004799503160661 / 18014398509481984)"
  by code_simp+

lemma representable_examples:
  "representable binary32 16777216"
  "\<not> representable binary32 16777217"
  "representable binary32 (2 ^ 128 - 2 ^ 104)"
  "\<not> representable binary32 (2 ^ 128)"
  "representable binary32 (2 powi - 149)"
  "\<not> representable binary32 (2 powi - 150)"
  by code_simp+

lemma rne_of_int: "rne (of_int k) = k"
  by (simp add: rne_def)

lemma quantum_pos: "0 < quantum F m"
  by (simp add: quantum_def)

lemma round_signed_exact:
  assumes "representable F m"
  shows "round_signed F s m = Fin s m"
proof (cases "m = 0")
  case True
  then show ?thesis by (simp add: round_signed_def)
next
  case False
  with assms have lt: "m < 2 powi emax F"
    and int: "of_int \<lfloor>m / quantum F m\<rfloor> = m / quantum F m"
    by (simp_all add: representable_def)
  have "rne (m / quantum F m) = \<lfloor>m / quantum F m\<rfloor>"
    using rne_of_int [of "\<lfloor>m / quantum F m\<rfloor>"] by (simp add: int)
  then have "of_int (rne (m / quantum F m)) * quantum F m = m"
    using quantum_pos [of F m] by (simp add: int)
  with False lt show ?thesis
    by (simp add: round_signed_def Let_def not_le)
qed

lemma rne_nonneg: "0 \<le> q \<Longrightarrow> 0 \<le> rne q"
  by (auto simp: rne_def Let_def)

lemma round_signed_nonneg:
  assumes "0 \<le> m"
  shows "round_signed F s m = Infty s \<or> (\<exists>v. 0 \<le> v \<and> round_signed F s m = Fin s v)"
proof -
  have "0 \<le> m / quantum F m"
    using assms quantum_pos [of F m] by simp
  then have "0 \<le> of_int (rne (m / quantum F m)) * quantum F m"
    using rne_nonneg quantum_pos [of F m] by (simp add: less_imp_le)
  then show ?thesis
    by (auto simp: round_signed_def Let_def)
qed

lemma fle_zero_round:
  assumes "0 \<le> m"
  shows "fle (Fin False 0) (round_signed F False m)"
  using round_signed_nonneg [OF assms, of F False]
  by (auto simp: fle_def fval_def)

lemma IsEqual_refl:
  assumes "0 \<le> m"
  shows "IsEqual (Fin s m) (Fin s m)"
proof -
  have "0 \<le> m * (1 / 8388608)" using assms by simp
  from fle_zero_round [OF this, of binary32] show ?thesis
    by (simp add: IsEqual_def fsub_def fgt_def fval_def fmul_def epsilon_def)
qed

text \<open>Powers of two with integer exponents, and the exponent of a positive rational.\<close>

lemma powi_pos: "(0::rat) < 2 powi k"
  by simp

lemma powi_le: "j \<le> k \<Longrightarrow> (2::rat) powi j \<le> 2 powi k"
  by (rule power_int_increasing) simp_all

lemma powi_less: "j < k \<Longrightarrow> (2::rat) powi j < 2 powi k"
  by (rule power_int_strict_increasing) simp_all

lemma powi_le_iff: "(2::rat) powi j \<le> 2 powi k \<longleftrightarrow> j \<le> k"
  using powi_le [of j k] powi_less [of k j] by (cases "j \<le> k") (simp_all add: not_le)

lemma powi_less_iff: "(2::rat) powi j < 2 powi k \<longleftrightarrow> j < k"
  using powi_less [of j k] powi_le [of k j] by (cases "j < k") (simp_all add: not_less)

lemma powi_suc: "(2::rat) powi (k + 1) = 2 * 2 powi k"
  by (simp add: power_int_add)

lemma powi_int: "0 \<le> k \<Longrightarrow> (2::rat) powi k = of_int (2 ^ nat k)"
  by (simp add: power_int_def)

lemma powi_diff: "(2::rat) powi (j - k) = 2 powi j / 2 powi k"
  by (simp add: power_int_diff)

lemma ilog2_unique:
  assumes "2 powi L \<le> q" "q < 2 powi (L + 1)"
  shows "ilog2 q = L"
proof -
  have q: "0 < q" using assms(1) powi_pos [of L] by linarith
  from ilog2_bounds [OF q] have b: "2 powi ilog2 q \<le> q" "q < 2 powi (ilog2 q + 1)" by simp_all
  have "(2::rat) powi ilog2 q < 2 powi (L + 1)" using b(1) assms(2) by linarith
  then have 1: "ilog2 q < L + 1" by (simp only: powi_less_iff)
  have "(2::rat) powi L < 2 powi (ilog2 q + 1)" using b(2) assms(1) by linarith
  then have 2: "L < ilog2 q + 1" by (simp only: powi_less_iff)
  from 1 2 show ?thesis by linarith
qed

lemma ilog2_powi: "ilog2 (2 powi j) = j"
  by (rule ilog2_unique) (simp_all add: powi_less)

lemma ilog2_ge:
  assumes "2 powi j \<le> q"
  shows "j \<le> ilog2 q"
proof -
  have q: "0 < q" using assms powi_pos [of j] by linarith
  from ilog2_bounds [OF q] have "q < 2 powi (ilog2 q + 1)" by simp
  with assms have "(2::rat) powi j < 2 powi (ilog2 q + 1)" by linarith
  then have "j < ilog2 q + 1" by (simp only: powi_less_iff)
  then show ?thesis by linarith
qed

lemma ilog2_lt:
  assumes "0 < q" "q < 2 powi j"
  shows "ilog2 q < j"
proof -
  from ilog2_bounds [OF assms(1)] have "2 powi ilog2 q \<le> q" by simp
  with assms have "(2::rat) powi ilog2 q < 2 powi j" by linarith
  then show ?thesis by (simp only: powi_less_iff)
qed

lemma ilog2_le:
  assumes "0 < q" "q \<le> 2 powi j"
  shows "ilog2 q \<le> j"
proof -
  from ilog2_bounds [OF assms(1)] have "2 powi ilog2 q \<le> q" by simp
  with assms have "(2::rat) powi ilog2 q \<le> 2 powi j" by linarith
  then show ?thesis by (simp only: powi_le_iff)
qed


lemma rne_ge_half:
  assumes "of_int k - 1 / 2 < q"
  shows "k \<le> rne q"
proof -
  have "\<bar>of_int (rne q) - q\<bar> \<le> 1 / 2" by (rule rne_nearest)
  then have "q - 1 / 2 \<le> of_int (rne q)" by linarith
  with assms have "(of_int k :: rat) - 1 < of_int (rne q)" by linarith
  then have "(of_int (k - 1) :: rat) < of_int (rne q)" by simp
  then have "k - 1 < rne q" by (simp only: of_int_less_iff)
  then show ?thesis by linarith
qed

lemma rne_le_half:
  assumes "q < of_int k + 1 / 2"
  shows "rne q \<le> k"
proof -
  have "\<bar>of_int (rne q) - q\<bar> \<le> 1 / 2" by (rule rne_nearest)
  then have "of_int (rne q) \<le> q + 1 / 2" by linarith
  with assms have "(of_int (rne q) :: rat) < of_int k + 1" by linarith
  then have "(of_int (rne q) :: rat) < of_int (k + 1)" by simp
  then have "rne q < k + 1" by (simp only: of_int_less_iff)
  then show ?thesis by linarith
qed

lemma rne_ge: "of_int k \<le> q \<Longrightarrow> k \<le> rne q"
  by (rule rne_ge_half) linarith

lemma rne_le: "q \<le> of_int k \<Longrightarrow> rne q \<le> k"
  by (rule rne_le_half) linarith

lemma round_signed_pos:
  assumes "0 < q"
  shows "round_signed F s q =
    (if 2 powi emax F \<le> of_int (rne (q / quantum F q)) * quantum F q then Infty s
     else Fin s (of_int (rne (q / quantum F q)) * quantum F q))"
  using assms by (simp add: round_signed_def Let_def)

lemma round_signed_FinD:
  assumes "0 < q" "round_signed F s q = Fin s' v"
  shows "s' = s" "v = of_int (rne (q / quantum F q)) * quantum F q" "v < 2 powi emax F"
  using assms(2) unfolding round_signed_pos [OF assms(1)]
  by (auto split: if_splits simp: not_le)

lemma round_signed_cases:
  "round_signed F s q = Infty s \<or> (\<exists>v. round_signed F s q = Fin s v)"
  by (simp add: round_signed_def Let_def)

lemma round_signed_error:
  assumes "0 < q" "round_signed F s q = Fin s' v"
  shows "\<bar>v - q\<bar> \<le> quantum F q / 2"
proof -
  let ?u = "quantum F q"
  have u: "0 < ?u" by (rule quantum_pos)
  have v: "v = of_int (rne (q / ?u)) * ?u" by (rule round_signed_FinD [OF assms])
  have "\<bar>of_int (rne (q / ?u)) - q / ?u\<bar> \<le> 1 / 2" by (rule rne_nearest)
  then have "\<bar>of_int (rne (q / ?u)) - q / ?u\<bar> * ?u \<le> 1 / 2 * ?u"
    using u by (intro mult_right_mono) simp_all
  moreover have "\<bar>of_int (rne (q / ?u)) - q / ?u\<bar> * ?u = \<bar>v - q\<bar>"
  proof -
    have "\<bar>of_int (rne (q / ?u)) - q / ?u\<bar> * ?u = \<bar>(of_int (rne (q / ?u)) - q / ?u) * ?u\<bar>"
      using u by (simp add: abs_mult)
    also have "(of_int (rne (q / ?u)) - q / ?u) * ?u = v - q"
      using u by (simp add: v left_diff_distrib)
    finally show ?thesis .
  qed
  ultimately show ?thesis by simp
qed

lemma quantum_eq:
  "quantum F q = 2 powi max (qmin F) (ilog2 q - int (prec F) + 1)"
  by (simp add: quantum_def)

lemma quantum_normal:
  assumes "2 powi (qmin F + int (prec F) - 1) \<le> q"
  shows "quantum F q = 2 powi (ilog2 q - int (prec F) + 1)"
proof -
  from ilog2_ge [OF assms] have "qmin F \<le> ilog2 q - int (prec F) + 1" by linarith
  then show ?thesis by (simp add: quantum_def max_def)
qed

lemma powi_multiple:
  assumes "j \<le> k"
  shows "\<exists>i::int. 0 < i \<and> (2::rat) powi k = of_int i * 2 powi j"
proof -
  have "(2::rat) powi k = 2 powi (k - j) * 2 powi j"
    by (simp add: power_int_add [symmetric])
  also have "(2::rat) powi (k - j) = of_int (2 ^ nat (k - j))"
    using assms by (simp add: powi_int)
  finally have "(2::rat) powi k = of_int (2 ^ nat (k - j)) * 2 powi j" .
  moreover have "(0::int) < 2 ^ nat (k - j)" by simp
  ultimately show ?thesis by blast
qed

lemma representable_multiple:
  assumes "representable F m"
  shows "\<exists>i::int. 0 \<le> i \<and> m = of_int i * quantum F m"
proof (cases "m = 0")
  case True
  then show ?thesis by (intro exI [of _ 0]) simp
next
  case False
  with assms have m: "0 < m" and i: "of_int \<lfloor>m / quantum F m\<rfloor> = m / quantum F m"
    by (simp_all add: representable_def)
  have u: "0 < quantum F m" by (rule quantum_pos)
  have "m = of_int \<lfloor>m / quantum F m\<rfloor> * quantum F m" using u by (simp add: i)
  moreover have "0 \<le> \<lfloor>m / quantum F m\<rfloor>" using m u by simp
  ultimately show ?thesis by blast
qed

lemma multiple_representable:
  assumes "0 < m" "m < 2 powi emax F" "m = of_int i * quantum F m"
  shows "representable F m"
proof -
  have u: "0 < quantum F m" by (rule quantum_pos)
  have "m / quantum F m = of_int i" using u assms(3) by (simp add: field_simps)
  then show ?thesis using assms by (simp add: representable_def)
qed

lemma pow2_representable:
  assumes "qmin F \<le> j" "j < emax F" "0 < prec F"
  shows "representable F (2 powi j)"
proof -
  have q: "quantum F (2 powi j) = 2 powi max (qmin F) (j - int (prec F) + 1)"
    by (simp add: quantum_def ilog2_powi)
  have "max (qmin F) (j - int (prec F) + 1) \<le> j" using assms by simp
  from powi_multiple [OF this] obtain i :: int
    where e: "(2::rat) powi j = of_int i * 2 powi max (qmin F) (j - int (prec F) + 1)" by blast
  have m: "(2::rat) powi j = of_int i * quantum F (2 powi j)"
    unfolding q by (rule e)
  have lt: "(2::rat) powi j < 2 powi emax F" using assms(2) by (rule powi_less)
  show ?thesis by (rule multiple_representable [OF powi_pos lt m])
qed

lemma round_lower_pow2:
  assumes "2 powi j \<le> q" "qmin F \<le> j" "0 < prec F" "round_signed F s q = Fin s' v"
  shows "2 powi j \<le> v"
proof -
  have q: "0 < q" using assms(1) powi_pos [of j] by linarith
  let ?e = "max (qmin F) (ilog2 q - int (prec F) + 1)"
  have jL: "j \<le> ilog2 q" by (rule ilog2_ge [OF assms(1)])
  then have "?e \<le> ilog2 q" using assms(2,3) by simp
  from powi_multiple [OF this] obtain i :: int
    where i: "(2::rat) powi ilog2 q = of_int i * 2 powi ?e" by blast
  have u: "quantum F q = 2 powi ?e" by (rule quantum_eq)
  have up: "(0::rat) < 2 powi ?e" by simp
  from ilog2_bounds [OF q] have "2 powi ilog2 q \<le> q" by simp
  then have "of_int i * 2 powi ?e \<le> q" by (simp only: i)
  then have "of_int i \<le> q / 2 powi ?e" using up by (simp add: pos_le_divide_eq)
  then have "i \<le> rne (q / 2 powi ?e)" by (rule rne_ge)
  then have "(of_int i :: rat) \<le> of_int (rne (q / 2 powi ?e))" by (simp only: of_int_le_iff)
  then have "(of_int i :: rat) * 2 powi ?e \<le> of_int (rne (q / 2 powi ?e)) * 2 powi ?e"
    using up by (intro mult_right_mono) simp_all
  moreover have "v = of_int (rne (q / 2 powi ?e)) * 2 powi ?e"
    using round_signed_FinD(2) [OF q assms(4)] by (simp only: u)
  ultimately have "2 powi ilog2 q \<le> v" by (simp only: i)
  moreover have "(2::rat) powi j \<le> 2 powi ilog2 q" using jL by (rule powi_le)
  ultimately show ?thesis by linarith
qed

lemma round_upper_pow2:
  assumes "0 < q" "q \<le> 2 powi j" "qmin F \<le> j" "j < emax F" "0 < prec F"
  shows "\<exists>v. round_signed F s q = Fin s v \<and> v \<le> 2 powi j"
proof -
  let ?e = "max (qmin F) (ilog2 q - int (prec F) + 1)"
  have "ilog2 q \<le> j" by (rule ilog2_le [OF assms(1,2)])
  then have "?e \<le> j" using assms(3,5) by simp
  from powi_multiple [OF this] obtain i :: int
    where i: "(2::rat) powi j = of_int i * 2 powi ?e" by blast
  have u: "quantum F q = 2 powi ?e" by (rule quantum_eq)
  have up: "(0::rat) < 2 powi ?e" by simp
  have "q \<le> of_int i * 2 powi ?e" using assms(2) by (simp only: i)
  then have "q / 2 powi ?e \<le> of_int i" using up by (simp add: pos_divide_le_eq)
  then have "rne (q / 2 powi ?e) \<le> i" by (rule rne_le)
  then have "(of_int (rne (q / 2 powi ?e)) :: rat) \<le> of_int i" by (simp only: of_int_le_iff)
  then have "(of_int (rne (q / 2 powi ?e)) :: rat) * 2 powi ?e \<le> of_int i * 2 powi ?e"
    using up by (intro mult_right_mono) simp_all
  then have le: "of_int (rne (q / quantum F q)) * quantum F q \<le> 2 powi j"
    by (simp only: i u)
  moreover have "(2::rat) powi j < 2 powi emax F" using assms(4) by (rule powi_less)
  ultimately have "\<not> 2 powi emax F \<le> of_int (rne (q / quantum F q)) * quantum F q"
    by linarith
  then show ?thesis using le by (simp add: round_signed_pos [OF assms(1)])
qed

lemma binary_prec: "0 < prec binary32" "0 < prec binary64"
  by (simp_all add: binary32_def binary64_def)

lemma binary32_fields: "prec binary32 = 24" "qmin binary32 = - 149" "emax binary32 = 128"
  by (simp_all add: binary32_def)

lemma representable_lt: "representable F m \<Longrightarrow> m < 2 powi emax F"
  by (auto simp: representable_def)

lemma representable_nonneg: "representable F m \<Longrightarrow> 0 \<le> m"
  by (auto simp: representable_def)

lemma quantum_normal32:
  assumes "2 powi (- 126) \<le> q"
  shows "quantum binary32 q = 2 powi (ilog2 q - 23)"
proof -
  have e: "qmin binary32 + int (prec binary32) - 1 = - 126" by (simp add: binary32_fields)
  have "2 powi (qmin binary32 + int (prec binary32) - 1) \<le> q" unfolding e by (rule assms)
  from quantum_normal [OF this] show ?thesis by (simp add: binary32_fields)
qed

subsection \<open>Equality with tolerance\<close>

lemma fle_NaN: "fle NaN q = False" "fle p NaN = False"
  by (cases p; simp add: fle_def)+

lemma fmul_in_commute: "fmul_in F p q = fmul_in F q p"
proof -
  have sw: "(s = (\<not> t)) = (t = (\<not> s))" for s t :: bool
    by blast
  show ?thesis
  proof (cases p)
    case NaN
    then show ?thesis by (cases q) simp_all
  next
    case (Infty s)
    then show ?thesis by (cases q) (simp_all add: sw [of s])
  next
    case (Fin s m)
    then show ?thesis by (cases q) (simp_all add: sw [of s] mult.commute)
  qed
qed

lemma fsub_NaN: "fsub NaN q = NaN" "fsub p NaN = NaN"
  by (cases p; simp add: fsub_def)+






lemma fle_Fin: "fle (Fin False c) (Fin False d) \<longleftrightarrow> c \<le> d"
  by (auto simp: fle_def fval_def)



text \<open>
  The tolerance is exact whenever the smaller magnitude is zero or at least \<open>2 powi (- 103)\<close>:
  it then has the 24 significant bits of that magnitude and is a normal \<^verbatim>\<open>float\<close>.
\<close>

lemma tolerance_exact_normal:
  assumes rm: "representable binary32 m" and rn: "representable binary32 n"
    and c: "min m n = 0 \<or> 2 powi (- 103) \<le> min m n"
  shows "tolerance_exact (Fin s m) (Fin t n)"
proof -
  define c where "c = min m n"
  have rc: "representable binary32 c" using rm rn by (simp add: c_def min_def)
  have "representable binary32 (c / 8388608)"
  proof (cases "c = 0")
    case True
    then show ?thesis by (simp add: representable_def)
  next
    case False
    with assms(3) have lo: "2 powi (- 103) \<le> c" by (simp add: c_def)
    have cpos: "0 < c" using lo powi_pos [of "- 103"] by linarith
    have "(2::rat) powi (- 126) \<le> 2 powi (- 103)" by (rule powi_le) simp
    with lo have cN: "2 powi (- 126) \<le> c" by linarith
    define e where "e = ilog2 c"
    from ilog2_bounds [OF cpos] have b: "2 powi e \<le> c" "c < 2 powi (e + 1)" by (simp_all add: e_def)
    have e103: "- 103 \<le> e" unfolding e_def by (rule ilog2_ge [OF lo])
    have d: "(2::rat) powi (e - 23) = 2 powi e / 8388608" "(2::rat) powi (e - 23 + 1) = 2 powi (e + 1) / 8388608"
      by (simp_all add: power_int_diff power_int_add)
    have "2 powi (e - 23) \<le> c / 8388608" "c / 8388608 < 2 powi (e - 23 + 1)"
      unfolding d using b by (simp_all add: divide_right_mono divide_strict_right_mono)
    then have il: "ilog2 (c / 8388608) = e - 23" by (rule ilog2_unique)
    have "(2::rat) powi (- 126) \<le> 2 powi (e - 23)" using e103 by (intro powi_le) simp
    also have "\<dots> \<le> c / 8388608" by fact
    finally have tN: "2 powi (- 126) \<le> c / 8388608" .
    have qt: "quantum binary32 (c / 8388608) = 2 powi (e - 23 - 23)"
      using quantum_normal32 [OF tN] by (simp only: il)
    have qc: "quantum binary32 c = 2 powi (e - 23)"
      using quantum_normal32 [OF cN] by (simp only: e_def)
    from representable_multiple [OF rc] obtain i :: int where i: "c = of_int i * 2 powi (e - 23)"
      by (auto simp: qc)
    have "(2::rat) powi (e - 23 - 23) = 2 powi (e - 23) / 8388608" by (simp add: power_int_diff)
    then have "c / 8388608 = of_int i * quantum binary32 (c / 8388608)"
      unfolding qt using i by simp
    moreover have "0 < c / 8388608" using cpos by simp
    moreover have "c / 8388608 < 2 powi emax binary32"
    proof -
      have "c / 8388608 \<le> c" using cpos by simp
      with representable_lt [OF rc] show ?thesis by linarith
    qed
    ultimately show ?thesis by (intro multiple_representable [where i = i]) 
  qed
  then show ?thesis using rm rn by (simp add: c_def)
qed




subsection \<open>Scaling and dividing back\<close>

text \<open>
  The error of the round trip. With \<open>u\<close> the unit roundoff of \<^verbatim>\<open>float\<close> and \<open>ep\<close> that of
  \<^verbatim>\<open>double\<close>, the product \<open>yv\<close> of the rounded \<open>m * n\<close> and the rounded \<open>1 / n\<close> differs from
  \<open>m\<close> by less than three halves of the spacing of the floats around \<open>m\<close>; the bound is
  smaller at the lower end of a binade, where the spacing below \<open>m\<close> is halved.
\<close>

lemma core_ineq:
  fixes c u :: rat
  assumes c: "0 < c" "c < 1" and h: "1 \<le> 2 * (1 - u) * c"
  shows "2 * (1 - u) * c + 1 / c \<le> 3 - 2 * u"
proof -
  have "(2 * (1 - u) * c - 1) * (c - 1) \<le> 0"
    using c h by (intro mult_nonneg_nonpos) simp_all
  then have "2 * (1 - u) * c * c + 1 \<le> (3 - 2 * u) * c"
    by (simp add: algebra_simps)
  then have "(2 * (1 - u) * c * c + 1) / c \<le> (3 - 2 * u) * c / c"
    using c(1) by (intro divide_right_mono) simp_all
  then show ?thesis using c(1) by (simp add: add_divide_distrib)
qed

lemma abs_prod_expand:
  fixes P I d1 d2 :: rat
  assumes that: "0 \<le> P" "0 \<le> I"
  shows "\<bar>(P + d1) * (I + d2) - P * I\<bar> \<le> P * \<bar>d2\<bar> + \<bar>d1\<bar> * I + \<bar>d1\<bar> * \<bar>d2\<bar>"
proof -
  have eq: "(P + d1) * (I + d2) - P * I = P * d2 + d1 * I + d1 * d2"
    by (simp add: algebra_simps)
  have "\<bar>P * d2 + d1 * I + d1 * d2\<bar> \<le> \<bar>P * d2 + d1 * I\<bar> + \<bar>d1 * d2\<bar>"
    by (rule abs_triangle_ineq)
  moreover have "\<bar>P * d2 + d1 * I\<bar> \<le> \<bar>P * d2\<bar> + \<bar>d1 * I\<bar>"
    by (rule abs_triangle_ineq)
  ultimately have "\<bar>(P + d1) * (I + d2) - P * I\<bar> \<le> \<bar>P * d2\<bar> + \<bar>d1 * I\<bar> + \<bar>d1 * d2\<bar>"
    unfolding eq by linarith
  then show ?thesis using that by (simp add: abs_mult)
qed

lemma small_terms:
  fixes u ep :: rat
  assumes u: "0 < u" "u \<le> 1 / 16" and ep: "0 \<le> ep" "4 * ep \<le> u * u"
  shows "u * u \<le> u / 16" "u * ep \<le> ep / 16" "ep \<le> u / 64"
proof -
  show uu: "u * u \<le> u / 16"
    using mult_left_mono [OF u(2), of u] u(1) by simp
  show "u * ep \<le> ep / 16"
    using mult_right_mono [OF u(2) ep(1)] by simp
  show "ep \<le> u / 64" using uu ep(2) by linarith
qed

lemma round_trip_error:
  fixes m n yv rv al be A u ep :: rat
  assumes n: "0 < n" and m: "0 < m"
    and u: "0 < u" "u \<le> 1 / 16" and ep: "0 \<le> ep" "4 * ep \<le> u * u"
    and P: "al \<le> m * n" "m * n < 2 * al" and al: "0 < al"
    and I: "be \<le> 1 / n" "1 / n < 2 * be" and be: "0 < be"
    and e1: "\<bar>yv - m * n\<bar> \<le> al * u"
    and e2: "\<bar>rv - 1 / n\<bar> \<le> be * (u + ep)"
    and e2x: "1 / n = be \<longrightarrow> rv = 1 / n"
    and A: "A \<le> m" "m \<le> 2 * A * (1 - u)"
    and ab: "al * be = A \<or> 2 * (al * be) = A"
  shows "\<bar>yv * rv - m\<bar> < 3 * u * A"
    and "m = A \<Longrightarrow> yv = m * n \<Longrightarrow> \<bar>yv * rv - m\<bar> < 3 / 2 * u * A"
    and "m = A * (1 + 2 * u) \<Longrightarrow> \<bar>yv * rv - m\<bar> < 5 / 2 * u * A"
proof -
  define K where "K = u + ep"
  define d1 where "d1 = yv - m * n"
  define d2 where "d2 = rv - 1 / n"
  define E where "E = yv * rv - m"
  note sm = small_terms [OF u ep]
  have K: "0 < K" "K \<le> u + u / 64" using u ep sm by (simp_all add: K_def)
  have uK: "u * K \<le> u / 16 + ep / 16" using sm by (simp add: K_def distrib_left)
  have uK0: "0 \<le> u * K" using u K by simp
  have Apos: "0 < A"
  proof -
    have "0 < al * be" using al be by simp
    with ab show ?thesis by auto
  qed
  have PI: "m * n * (1 / n) = m" using n by simp
  have Ipos: "0 < 1 / n" using n by simp
  have Ppos: "0 < m * n" using m n by simp
  have "yv * rv - m = (m * n + d1) * (1 / n + d2) - m * n * (1 / n)"
    by (simp only: d1_def d2_def PI) simp
  then have "\<bar>E\<bar> \<le> m * n * \<bar>d2\<bar> + \<bar>d1\<bar> * (1 / n) + \<bar>d1\<bar> * \<bar>d2\<bar>"
    unfolding E_def using abs_prod_expand [of "m * n" "1 / n" d1 d2] Ppos Ipos by simp
  moreover have b1: "\<bar>d1\<bar> \<le> al * u" using e1 by (simp add: d1_def)
  moreover have b2: "\<bar>d2\<bar> \<le> be * K" using e2 by (simp add: d2_def K_def)
  ultimately have E0: "\<bar>E\<bar> \<le> m * n * \<bar>d2\<bar> + \<bar>d1\<bar> * (1 / n) + \<bar>d1\<bar> * \<bar>d2\<bar>" by simp
  have nb: "n * be \<le> 1" using I(1) n by (simp add: pos_le_divide_eq mult.commute)
  have alI: "al * (1 / n) \<le> m"
  proof -
    have "al * (1 / n) \<le> m * n * (1 / n)" using P(1) Ipos by (intro mult_right_mono) simp_all
    then show ?thesis by (simp only: PI)
  qed
  have albe: "al * be \<le> A" "0 < al * be" using ab al be Apos by auto
  have t3: "\<bar>d1\<bar> * \<bar>d2\<bar> \<le> A * (u * K)"
  proof -
    have "\<bar>d1\<bar> * \<bar>d2\<bar> \<le> (al * u) * (be * K)"
      using b1 b2 al u by (intro mult_mono) simp_all
    also have "\<dots> = (al * be) * (u * K)" by simp
    also have "\<dots> \<le> A * (u * K)" using albe(1) uK0 by (rule mult_right_mono)
    finally show ?thesis .
  qed
  have t2: "\<bar>d1\<bar> * (1 / n) \<le> (al * (1 / n)) * u"
  proof -
    have "\<bar>d1\<bar> * (1 / n) \<le> (al * u) * (1 / n)" using b1 Ipos by (intro mult_right_mono) simp_all
    then show ?thesis by (simp add: mult.assoc mult.commute)
  qed
  have t1: "m * n * \<bar>d2\<bar> \<le> (m * (n * be)) * K"
  proof -
    have "m * n * \<bar>d2\<bar> \<le> m * n * (be * K)" using b2 Ppos by (intro mult_left_mono) simp_all
    then show ?thesis by (simp add: mult.assoc)
  qed
  have exact: "\<bar>E\<bar> \<le> A * u" if "1 / n = be"
  proof -
    have "d2 = 0" using e2x that by (simp add: d2_def)
    with E0 have "\<bar>E\<bar> \<le> \<bar>d1\<bar> * (1 / n)" by simp
    also have "\<dots> \<le> (al * (1 / n)) * u" by (rule t2)
    also have "\<dots> = (al * be) * u" by (simp only: that)
    also have "\<dots> \<le> A * u" using albe(1) u(1) by (intro mult_right_mono) simp_all
    finally show ?thesis .
  qed
  have Au: "0 < A * u" using Apos u by simp
  have c1: "\<bar>E\<bar> < 3 * u * A \<and> (m = A * (1 + 2 * u) \<longrightarrow> \<bar>E\<bar> < 5 / 2 * u * A)"
  proof (cases "1 / n = be")
    case True
    from exact [OF True] Au show ?thesis by (auto simp: mult.commute)
  next
    case False
    with I(1) have lt: "be < 1 / n" by simp
    then have nb1: "n * be < 1" using n by (simp add: pos_less_divide_eq mult.commute)
    from ab show ?thesis
    proof
      assume h: "2 * (al * be) = A"
      have "m * (n * be) = (m * n) * be" by simp
      also have "\<dots> < (2 * al) * be" using P(2) be by (intro mult_strict_right_mono)
      also have "\<dots> = A" using h by simp
      finally have x1: "m * (n * be) < A" .
      have "al * (1 / n) < al * (2 * be)" using I(2) al by (intro mult_strict_left_mono)
      also have "\<dots> = A" using h by simp
      finally have x2: "al * (1 / n) < A" .
      have "(m * (n * be)) * K \<le> A * K" using x1 K(1) by (intro mult_right_mono) simp_all
      moreover have "(al * (1 / n)) * u < A * u" using x2 u(1) by (intro mult_strict_right_mono)
      ultimately have "\<bar>E\<bar> < A * K + A * u + A * (u * K)"
        using E0 t1 t2 t3 by linarith
      also have "\<dots> = A * (K + u + u * K)" by (simp add: distrib_left)
      also have "\<dots> \<le> A * (5 / 2 * u)"
        using Apos K uK sm by (intro mult_left_mono) simp_all
      finally have "\<bar>E\<bar> < 5 / 2 * u * A" by (simp add: mult.commute mult.left_commute)
      then show ?thesis using Au by auto
    next
      assume h: "al * be = A"
      define c where "c = n * be"
      have c: "0 < c" "c < 1" using n be nb1 by (simp_all add: c_def)
      have Ac: "al * (1 / n) = A / c"
      proof -
        have "A / c = al * be / (n * be)" by (simp add: h c_def)
        also have "\<dots> = al * (1 / n)" using be by simp
        finally show ?thesis by simp
      qed
      have Acm: "A / c \<le> m" using alI by (simp only: Ac)
      have mc: "m * c < m" using c m by simp
      have m2: "m \<le> 2 * A" using A(2) Apos u(1)
      proof -
        have "2 * A * (1 - u) \<le> 2 * A" using Apos u(1) by simp
        with A(2) show ?thesis by linarith
      qed
      have t1': "m * n * \<bar>d2\<bar> \<le> (m * c) * K" using t1 by (simp only: c_def)
      have t2': "\<bar>d1\<bar> * (1 / n) \<le> (A / c) * u" using t2 by (simp only: Ac)
      have first: "\<bar>E\<bar> \<le> (m * c) * K + (A / c) * u + A * (u * K)"
        using E0 t1' t2' t3 by linarith
      have p1: "\<bar>E\<bar> < 3 * u * A"
      proof -
        have "A \<le> m * c" using Acm c(1) by (simp add: pos_divide_le_eq)
        also have "\<dots> \<le> (2 * A * (1 - u)) * c" using A(2) c(1) by (intro mult_right_mono) simp_all
        finally have "A * 1 \<le> A * (2 * (1 - u) * c)" by (simp add: mult.assoc mult.left_commute)
        then have hc: "1 \<le> 2 * (1 - u) * c" using Apos by (simp only: mult_le_cancel_left_pos)
        have "m * c + A / c \<le> (2 * A * (1 - u)) * c + A / c"
          using A(2) c(1) by (intro add_right_mono mult_right_mono) simp_all
        also have "\<dots> = A * (2 * (1 - u) * c + 1 / c)" by (simp add: distrib_left mult.assoc mult.left_commute)
        also have "\<dots> \<le> A * (3 - 2 * u)"
          using core_ineq [OF c hc] Apos by (intro mult_left_mono) simp_all
        finally have s1: "m * c + A / c \<le> A * (3 - 2 * u)" .
        have "(m * c) * K + (A / c) * u = u * (m * c + A / c) + ep * (m * c)"
          by (simp add: K_def algebra_simps)
        also have "\<dots> \<le> u * (A * (3 - 2 * u)) + ep * (2 * A)"
        proof (intro add_mono)
          show "u * (m * c + A / c) \<le> u * (A * (3 - 2 * u))" using s1 u(1) by (intro mult_left_mono) simp_all
          have "m * c \<le> 2 * A" using mc m2 by linarith
          then show "ep * (m * c) \<le> ep * (2 * A)" using ep(1) by (intro mult_left_mono)
        qed
        finally have "\<bar>E\<bar> \<le> u * (A * (3 - 2 * u)) + ep * (2 * A) + A * (u * K)" using first by linarith
        also have "\<dots> = A * (3 * u - 2 * (u * u) + 2 * ep + u * K)" by (simp add: algebra_simps)
        also have "\<dots> < A * (3 * u)"
        proof (intro mult_strict_left_mono Apos)
          have "u * K = u * u + u * ep" by (simp add: K_def distrib_left)
          moreover have "0 < u * u" using u(1) by simp
          ultimately show "3 * u - 2 * (u * u) + 2 * ep + u * K < 3 * u"
            using sm ep by linarith
        qed
        finally show ?thesis by (simp add: mult.commute mult.left_commute)
      qed
      have p3: "\<bar>E\<bar> < 5 / 2 * u * A" if mm: "m = A * (1 + 2 * u)"
      proof -
        have "(m * c) * K \<le> m * K" using mc K(1) by (intro mult_right_mono) simp_all
        moreover have "(A / c) * u \<le> m * u" using Acm u(1) by (intro mult_right_mono) simp_all
        ultimately have "\<bar>E\<bar> \<le> m * K + m * u + A * (u * K)" using first by linarith
        also have "\<dots> = A * ((1 + 2 * u) * K + (1 + 2 * u) * u + u * K)"
          by (simp add: mm algebra_simps)
        also have "\<dots> < A * (5 / 2 * u)"
        proof (intro mult_strict_left_mono Apos)
          have "(1 + 2 * u) * K + (1 + 2 * u) * u + u * K = K + 3 * (u * K) + u + 2 * (u * u)"
            by (simp add: algebra_simps)
          moreover have "K + 3 * (u * K) + u + 2 * (u * u) < 5 / 2 * u"
            using K uK sm u by linarith
          ultimately show "(1 + 2 * u) * K + (1 + 2 * u) * u + u * K < 5 / 2 * u" by linarith
        qed
        finally show ?thesis by (simp add: mult.commute mult.left_commute)
      qed
      from p1 p3 show ?thesis by blast
    qed
  qed
  from c1 show "\<bar>yv * rv - m\<bar> < 3 * u * A" by (simp add: E_def)
  from c1 show "m = A * (1 + 2 * u) \<Longrightarrow> \<bar>yv * rv - m\<bar> < 5 / 2 * u * A" by (simp add: E_def)
  show "\<bar>yv * rv - m\<bar> < 3 / 2 * u * A" if mA: "m = A" and ex: "yv = m * n"
  proof (cases "1 / n = be")
    case True
    from exact [OF True] Au show ?thesis by (simp add: E_def mult.commute)
  next
    case False
    with I(1) have lt: "be < 1 / n" by simp
    then have nb1: "n * be < 1" using n by (simp add: pos_less_divide_eq mult.commute)
    have "d1 = 0" using ex by (simp add: d1_def)
    with E0 have "\<bar>E\<bar> \<le> m * n * \<bar>d2\<bar>" by simp
    also have "\<dots> \<le> (m * (n * be)) * K" by (rule t1)
    also have "\<dots> \<le> m * K"
    proof -
      have "m * (n * be) \<le> m" using nb1 m by simp
      then show ?thesis using K(1) by (intro mult_right_mono) simp_all
    qed
    also have "\<dots> = A * K" by (simp add: mA)
    also have "\<dots> < A * (3 / 2 * u)"
      using Apos K u by (intro mult_strict_left_mono) simp_all
    finally show ?thesis by (simp add: E_def mult.commute mult.left_commute)
  qed
qed

text \<open>The rounding errors of the product and of the reciprocal.\<close>

lemma binary64_fields: "prec binary64 = 53" "qmin binary64 = - 1074" "emax binary64 = 1024"
  by (simp_all add: binary64_def)

lemma round_signed_sign:
  assumes "round_signed F s q = Fin s' v"
  shows "s' = s"
  using assms by (simp add: round_signed_def Let_def split: if_splits)

lemma round_overflow_bound:
  assumes "0 < q" "round_signed F s q = Fin s' v" "qmin F \<le> j" "0 < prec F" "2 powi j \<le> q"
  shows "j < emax F"
proof -
  have "2 powi j \<le> v" by (rule round_lower_pow2 [OF assms(5,3,4,2)])
  moreover have "v < 2 powi emax F" by (rule round_signed_FinD(3) [OF assms(1,2)])
  ultimately have "(2::rat) powi j < 2 powi emax F" by linarith
  then show ?thesis by (simp only: powi_less_iff)
qed

lemma product_error:
  assumes P: "2 powi (- 126) \<le> P" and yv: "round_signed binary32 s P = Fin s' yv"
  shows "\<bar>yv - P\<bar> \<le> 2 powi ilog2 P * (1 / 16777216)"
proof -
  have pos: "0 < P" using P powi_pos [of "- 126"] by linarith
  have "quantum binary32 P = 2 powi (ilog2 P - 23)"
    using quantum_normal [of binary32 P] P by (simp add: binary32_fields)
  also have "\<dots> = 2 powi ilog2 P / 8388608" by (simp add: power_int_diff)
  finally have "quantum binary32 P / 2 = 2 powi ilog2 P * (1 / 16777216)" by simp
  with round_signed_error [OF pos yv] show ?thesis by simp
qed

lemma reciprocal_error:
  assumes n: "0 < n" and N: "2 powi (- 126) \<le> 1 / n"
    and R: "float_of_double (fdiv_in binary64 (Fin False 1) (double_of_float (Fin t n))) = Fin t' rv"
  shows "t' = t"
    and "2 powi ilog2 (1 / n) \<le> rv"
    and "\<bar>rv - 1 / n\<bar> \<le> 2 powi ilog2 (1 / n) * (1 / 16777216 + 1 / 9007199254740992)"
    and "1 / n = 2 powi ilog2 (1 / n) \<Longrightarrow> rv = 1 / n"
proof -
  define I where "I = 1 / n"
  define L where "L = ilog2 I"
  define be :: rat where "be = 2 powi L"
  have I: "0 < I" using n by (simp add: I_def)
  have L: "- 126 \<le> L" unfolding L_def I_def by (rule ilog2_ge [OF N])
  from ilog2_bounds [OF I] have bI: "be \<le> I" "I < 2 * be"
    by (simp_all add: be_def L_def powi_suc)
  have bepos: "0 < be" by (simp add: be_def)
  have div: "fdiv_in binary64 (Fin False 1) (double_of_float (Fin t n)) = round_signed binary64 t I"
    using n by (simp add: double_of_float_def I_def)
  from round_signed_cases [of binary64 t I] obtain r64
    where r64: "round_signed binary64 t I = Fin t r64"
    using R by (auto simp: div)
  have rv: "round_signed binary32 t r64 = Fin t' rv" using R by (simp add: div r64)
  show t: "t' = t" by (rule round_signed_sign [OF rv])
  have lo64: "be \<le> r64"
    unfolding be_def by (rule round_lower_pow2 [OF _ _ _ r64]) (use bI L in \<open>simp_all add: be_def binary64_fields\<close>)
  have r64pos: "0 < r64" using lo64 bepos by linarith
  have lo32: "be \<le> rv"
    unfolding be_def by (rule round_lower_pow2 [OF _ _ _ rv]) (use lo64 L in \<open>simp_all add: be_def binary32_fields\<close>)
  then show "2 powi ilog2 (1 / n) \<le> rv" by (simp add: be_def L_def I_def)
  have L128: "L < 128"
    using round_overflow_bound [OF r64pos rv, of L] lo64 L by (simp add: be_def binary32_fields)
  have q64: "quantum binary64 I = be / 4503599627370496"
  proof -
    have "2 powi (- 1022) \<le> I" using bI(1) powi_le [of "- 1022" L] L by (simp add: be_def)
    then have "quantum binary64 I = 2 powi (L - 52)"
      using quantum_normal [of binary64 I] by (simp add: binary64_fields L_def)
    then show ?thesis by (simp add: power_int_diff be_def)
  qed
  have e64: "\<bar>r64 - I\<bar> \<le> be / 9007199254740992"
    using round_signed_error [OF I r64] by (simp add: q64)
  have up64: "r64 \<le> 2 * be"
  proof -
    have "I \<le> 2 powi (L + 1)" using bI(2) by (simp add: be_def powi_suc)
    from round_upper_pow2 [OF I this, of binary64 t] L L128 r64
    show ?thesis by (simp add: binary64_fields be_def powi_suc)
  qed
  have e32: "\<bar>rv - r64\<bar> \<le> be / 16777216"
  proof (cases "r64 = 2 * be")
    case True
    then have r: "r64 = 2 powi (L + 1)" by (simp add: be_def powi_suc)
    have "L + 1 < 128"
      using round_overflow_bound [OF r64pos rv, of "L + 1"] L by (simp add: r binary32_fields)
    then have "representable binary32 r64"
      unfolding r using L by (intro pow2_representable) (simp_all add: binary32_fields)
    then have "round_signed binary32 t r64 = Fin t r64" by (rule round_signed_exact)
    with rv have "rv = r64" by simp
    then show ?thesis using bepos by simp
  next
    case False
    with up64 have "r64 < 2 powi (L + 1)" by (simp add: be_def powi_suc)
    moreover have "2 powi L \<le> r64" using lo64 by (simp add: be_def)
    ultimately have il: "ilog2 r64 = L" by (intro ilog2_unique)
    have "2 powi (- 126) \<le> r64" using lo64 powi_le [of "- 126" L] L by (simp add: be_def)
    then have "quantum binary32 r64 = 2 powi (L - 23)"
      using quantum_normal [of binary32 r64] by (simp add: binary32_fields il)
    then have "quantum binary32 r64 = be / 8388608" by (simp add: power_int_diff be_def)
    with round_signed_error [OF r64pos rv] show ?thesis by simp
  qed
  have "\<bar>rv - I\<bar> \<le> \<bar>rv - r64\<bar> + \<bar>r64 - I\<bar>" by linarith
  with e32 e64 have "\<bar>rv - I\<bar> \<le> be / 16777216 + be / 9007199254740992" by linarith
  then show "\<bar>rv - 1 / n\<bar> \<le> 2 powi ilog2 (1 / n) * (1 / 16777216 + 1 / 9007199254740992)"
    by (simp add: I_def be_def L_def distrib_left)
  show "rv = 1 / n" if "1 / n = 2 powi ilog2 (1 / n)"
  proof -
    have Ib: "I = 2 powi L" using that by (simp add: I_def L_def)
    have "representable binary64 I"
      unfolding Ib using L L128 by (intro pow2_representable) (simp_all add: binary64_fields)
    then have "round_signed binary64 t I = Fin t I" by (rule round_signed_exact)
    with r64 have r: "r64 = I" by simp
    have "representable binary32 I"
      unfolding Ib using L L128 by (intro pow2_representable) (simp_all add: binary32_fields)
    then have "round_signed binary32 t I = Fin t I" by (rule round_signed_exact)
    with rv r have "rv = I" by simp
    then show ?thesis by (simp add: I_def)
  qed
qed

lemma representable_normal_multiple:
  assumes "representable binary32 n" "0 < n"
  shows "\<exists>i::int. n = of_int i * 2 powi (ilog2 n - 23)"
proof -
  from representable_multiple [OF assms(1)] obtain i :: int
    where i: "n = of_int i * quantum binary32 n" by blast
  have "ilog2 n - 23 \<le> max (- 149) (ilog2 n - 23)" by simp
  from powi_multiple [OF this] obtain k :: int
    where "(2::rat) powi max (- 149) (ilog2 n - 23) = of_int k * 2 powi (ilog2 n - 23)" by blast
  then have "quantum binary32 n = of_int k * 2 powi (ilog2 n - 23)"
    by (simp add: quantum_eq binary32_fields)
  with i have "n = of_int i * (of_int k * 2 powi (ilog2 n - 23))" by simp
  then have "n = of_int (i * k) * 2 powi (ilog2 n - 23)" by simp
  then show ?thesis by blast
qed

lemma product_exact_pow2:
  assumes rn: "representable binary32 n" and n: "0 < n"
    and P: "2 powi (- 126) \<le> 2 powi e * n"
    and yv: "round_signed binary32 s (2 powi e * n) = Fin s' yv"
  shows "yv = 2 powi e * n"
proof -
  define f where "f = ilog2 n"
  define P where "P = 2 powi e * n"
  have pos: "0 < P" using n by (simp add: P_def)
  from ilog2_bounds [OF n] have "2 powi f \<le> n" "n < 2 powi (f + 1)" by (simp_all add: f_def)
  then have "2 powi e * 2 powi f \<le> P" "P < 2 powi e * 2 powi (f + 1)"
    by (simp_all add: P_def)
  then have "2 powi (e + f) \<le> P" "P < 2 powi (e + f + 1)"
    by (simp_all add: power_int_add)
  then have il: "ilog2 P = e + f" by (rule ilog2_unique)
  have "2 powi (- 126) \<le> P" using P by (simp only: P_def)
  from quantum_normal32 [OF this] have q: "quantum binary32 P = 2 powi (e + f - 23)"
    by (simp only: il)
  from representable_normal_multiple [OF rn n] obtain i :: int
    where i: "n = of_int i * 2 powi (f - 23)" by (auto simp: f_def)
  have "P = of_int i * (2 powi e * 2 powi (f - 23))" by (simp add: P_def i)
  also have "(2::rat) powi e * 2 powi (f - 23) = 2 powi (e + f - 23)"
  proof -
    have "(2::rat) powi e * 2 powi (f - 23) = 2 powi (e + (f - 23))" by (simp add: power_int_add)
    moreover have "e + (f - 23) = e + f - 23" by simp
    ultimately show ?thesis by (simp only:)
  qed
  finally have "P = of_int i * 2 powi (e + f - 23)" .
  then have Pi: "P = of_int i * quantum binary32 P" unfolding q .
  have u: "0 < quantum binary32 P" by (rule quantum_pos)
  have "P / quantum binary32 P = of_int i" using u Pi by (simp add: field_simps)
  then have "rne (P / quantum binary32 P) = i" by (simp add: rne_of_int)
  with round_signed_FinD(2) [OF pos yv [folded P_def]] Pi show ?thesis
    by (simp add: P_def)
qed

lemma IsEqual_pow2_apart:
  assumes c: "0 \<le> c" and d: "0 \<le> d"
    and diff: "\<bar>c - d\<bar> = 2 powi j" and j: "- 149 \<le> j" "j < 128"
    and low: "2 powi (j + 23) \<le> min c d"
  shows "IsEqual (Fin s c) (Fin s d)"
proof -
  define D :: rat where "D = 2 powi j"
  have rD: "representable binary32 D"
    unfolding D_def using j by (intro pow2_representable) (simp_all add: binary32_fields)
  have Dpos: "0 < D" by (simp add: D_def)
  have dd: "\<bar>fval s c - fval s d\<bar> = D" "fval s c - fval s d \<noteq> 0"
    using diff Dpos by (auto simp: fval_def D_def)
  define sg where "sg \<longleftrightarrow> fval s c - fval s d < 0"
  have "fsub (Fin s c) (Fin s d) = round_signed binary32 sg D"
    using dd by (simp add: fsub_def Let_def sg_def)
  then have sub: "fabs (fsub (Fin s c) (Fin s d)) = Fin False D"
    by (simp add: round_signed_exact [OF rD])
  have pick: "(if fgt (fabs (Fin s c)) (fabs (Fin s d)) then fabs (Fin s d) else fabs (Fin s c))
      = Fin False (min c d)"
    by (simp add: fgt_def fval_def min_def)
  define T where "T = min c d / 8388608"
  have tol: "fmul (Fin False (min c d)) epsilon = round_signed binary32 False T"
    by (simp add: fmul_def epsilon_def T_def)
  have "2 powi j * 8388608 \<le> min c d" using low by (simp add: power_int_add)
  then have lowT: "2 powi j \<le> T" by (simp add: T_def pos_le_divide_eq)
  from round_signed_cases [of binary32 False T]
  have "fle (Fin False D) (round_signed binary32 False T)"
  proof
    assume "round_signed binary32 False T = Infty False"
    then show ?thesis by (simp add: fle_def)
  next
    assume "\<exists>v. round_signed binary32 False T = Fin False v"
    then obtain v where v: "round_signed binary32 False T = Fin False v" by blast
    from round_lower_pow2 [OF lowT _ _ v] j have "D \<le> v" by (simp add: binary32_fields D_def)
    then show ?thesis by (simp only: v fle_Fin)
  qed
  then show ?thesis by (simp only: IsEqual_def sub pick tol)
qed

lemma rne_between:
  assumes "of_int k - 1 / 2 < q" "q < of_int l + 1 / 2"
  shows "k \<le> rne q" "rne q \<le> l"
  using assms by (auto intro: rne_ge_half rne_le_half)

text \<open>
  A value that close to a normal float \<open>m\<close> rounds to \<open>m\<close> or to one of its neighbours.
\<close>

lemma round_on_grid:
  assumes q: "0 < q" and zv: "round_signed binary32 s q = Fin s' zv"
    and u: "quantum binary32 q = U" and U: "0 < U"
    and lo: "of_int k * U - U / 2 < q" and hi: "q < of_int l * U + U / 2"
  shows "\<exists>i::int. k \<le> i \<and> i \<le> l \<and> zv = of_int i * U"
proof -
  have "of_int k - 1 / 2 < q / U" using lo U by (simp add: pos_less_divide_eq left_diff_distrib)
  moreover have "q / U < of_int l + 1 / 2" using hi U by (simp add: pos_divide_less_eq distrib_right)
  ultimately have "k \<le> rne (q / U)" "rne (q / U) \<le> l" by (rule rne_between)+
  moreover have "zv = of_int (rne (q / U)) * U"
    using round_signed_FinD(2) [OF q zv] by (simp only: u)
  ultimately show ?thesis by blast
qed

lemma round_near:
  fixes m xx zv A Q :: rat
  assumes rm: "representable binary32 m" and mN: "2 powi (- 126) \<le> m"
    and e: "e = ilog2 m" and Q: "Q = 2 powi (e - 23)" and A: "A = 2 powi e"
    and b1: "\<bar>xx - m\<bar> < 3 / 2 * Q"
    and b2: "m = A \<Longrightarrow> \<bar>xx - m\<bar> < 3 / 4 * Q"
    and b3: "m = A + Q \<Longrightarrow> \<bar>xx - m\<bar> < 5 / 4 * Q"
    and zv: "round_signed binary32 s xx = Fin s' zv"
  shows "zv = m \<or> zv = m + Q \<or> (zv = m - Q \<and> A \<le> zv)
       \<or> (zv = m - Q / 2 \<and> m = A \<and> - 125 \<le> e) \<or> (zv = m - Q \<and> m = A \<and> e = - 126)"
proof -
  have mpos: "0 < m" using mN powi_pos [of "- 126"] by linarith
  have e126': "- 126 \<le> e" unfolding e by (rule ilog2_ge [OF mN])
  then have AN: "2 powi (- 126) \<le> A" unfolding A by (rule powi_le)
  have Qpos: "0 < Q" by (simp add: Q)
  have AQ: "A = 8388608 * Q" by (simp add: A Q power_int_diff)
  from ilog2_bounds [OF mpos] have mA: "A \<le> m" "m < 2 * A" by (simp_all add: A e powi_suc)
  have qm: "quantum binary32 m = Q" using quantum_normal32 [OF mN] by (simp add: Q e)
  from representable_multiple [OF rm] obtain K :: int where K: "m = of_int K * Q"
    by (auto simp: qm)
  have K1: "8388608 \<le> K"
  proof -
    have "8388608 * Q \<le> of_int K * Q" using mA(1) by (simp only: AQ K)
    then have "(of_int 8388608 :: rat) \<le> of_int K" using Qpos by simp
    then show ?thesis by (simp only: of_int_le_iff)
  qed
  have K2: "K \<le> 16777215"
  proof -
    have "of_int K * Q < 16777216 * Q" using mA(2) by (simp add: AQ K)
    then have "(of_int K :: rat) < of_int 16777216" using Qpos by simp
    then have "K < 16777216" by (simp only: of_int_less_iff)
    then show ?thesis by simp
  qed
  have lo: "m - 3 / 2 * Q < xx" and hi: "xx < m + 3 / 2 * Q" using b1 by linarith+
  have xpos: "0 < xx" using lo mA(1) Qpos unfolding AQ by linarith
  consider (same) "A \<le> xx" "xx < 2 * A" | (up) "2 * A \<le> xx" | (down) "xx < A" by linarith
  then show ?thesis
  proof cases
    case same
    have xN: "2 powi (- 126) \<le> xx" using same(1) AN by linarith
    from same have "2 powi e \<le> xx" "xx < 2 powi (e + 1)" by (simp_all add: A powi_suc)
    then have il: "ilog2 xx = e" by (rule ilog2_unique)
    have qx: "quantum binary32 xx = Q" using quantum_normal32 [OF xN] by (simp add: il Q)
    have l1: "of_int (K - 1) * Q - Q / 2 < xx" using lo by (simp add: K left_diff_distrib)
    have h1: "xx < of_int (K + 1) * Q + Q / 2" using hi by (simp add: K distrib_right)
    from round_on_grid [OF xpos zv qx Qpos l1 h1] obtain i :: int
      where i: "K - 1 \<le> i" "i \<le> K + 1" "zv = of_int i * Q" by blast
    have l2: "of_int 8388608 * Q - Q / 2 < xx" using same(1) Qpos by (simp add: AQ)
    from round_on_grid [OF xpos zv qx Qpos l2 h1] obtain i' :: int
      where i': "8388608 \<le> i'" "zv = of_int i' * Q" by blast
    have "i' = i" using i(3) i'(2) Qpos by simp
    with i' have i8: "8388608 \<le> i" by simp
    have Az: "A \<le> zv"
    proof -
      have "(of_int 8388608 :: rat) \<le> of_int i" using i8 by (simp only: of_int_le_iff)
      then have "of_int 8388608 * Q \<le> of_int i * Q" using Qpos by (intro mult_right_mono) simp_all
      then show ?thesis by (simp add: AQ i(3))
    qed
    from i(1,2) consider "i = K - 1" | "i = K" | "i = K + 1" by linarith
    then show ?thesis
    proof cases
      case 1
      then have "zv = m - Q" by (simp add: i(3) K left_diff_distrib)
      with Az show ?thesis by simp
    next
      case 2
      then show ?thesis by (simp add: i(3) K)
    next
      case 3
      then have "zv = m + Q" by (simp add: i(3) K distrib_right)
      then show ?thesis by simp
    qed
  next
    case up
    have xN: "2 powi (- 126) \<le> xx" using up AN powi_pos [of e] unfolding A by linarith
    have K3: "of_int K * Q \<le> 16777215 * Q"
    proof -
      have "(of_int K :: rat) \<le> of_int 16777215" using K2 by (simp only: of_int_le_iff)
      then show ?thesis using Qpos by (intro mult_right_mono) simp_all
    qed
    have xh: "xx < 2 * A + Q / 2" using hi K3 by (simp add: K AQ)
    have "2 powi (e + 1) \<le> xx" using up by (simp add: A powi_suc)
    moreover have "xx < 2 powi (e + 1 + 1)"
    proof -
      have "xx < 4 * A" using xh AQ Qpos by linarith
      moreover have "(2::rat) powi (e + 1 + 1) = 4 * A" unfolding powi_suc A by simp
      ultimately show ?thesis by simp
    qed
    ultimately have il: "ilog2 xx = e + 1" by (rule ilog2_unique)
    have qx: "quantum binary32 xx = 2 * Q"
    proof -
      have "quantum binary32 xx = 2 powi (e + 1 - 23)" using quantum_normal32 [OF xN] by (simp only: il)
      also have "e + 1 - 23 = (e - 23) + 1" by simp
      finally show ?thesis by (simp only: powi_suc Q)
    qed
    have l1: "of_int 8388608 * (2 * Q) - (2 * Q) / 2 < xx" using up Qpos by (simp add: AQ)
    have h1: "xx < of_int 8388608 * (2 * Q) + (2 * Q) / 2" using xh Qpos by (simp add: AQ)
    from round_on_grid [OF xpos zv qx _ l1 h1] Qpos obtain i :: int
      where i: "8388608 \<le> i" "i \<le> 8388608" "zv = of_int i * (2 * Q)" by auto
    then have z: "zv = 2 * A" by (simp add: AQ)
    have "16777215 \<le> K"
    proof -
      have "16777216 * Q - 3 / 2 * Q < of_int K * Q" using hi up unfolding K AQ by linarith
      then have "(16777216 - 3 / 2) * Q < of_int K * Q" by (simp add: left_diff_distrib)
      then have "(16777216 - 3 / 2 :: rat) < of_int K" using Qpos by (simp only: mult_less_cancel_right_pos)
      then have "(of_int 16777214 :: rat) < of_int K" by simp
      then have "16777214 < K" by (simp only: of_int_less_iff)
      then show ?thesis by simp
    qed
    with K2 have "K = 16777215" by simp
    then have "m = 2 * A - Q" by (simp add: K AQ)
    with z show ?thesis by simp
  next
    case down
    have K4: "K \<le> 8388609"
    proof -
      have "of_int K * Q < 8388608 * Q + 3 / 2 * Q" using lo down unfolding K AQ by linarith
      then have "of_int K * Q < (8388608 + 3 / 2) * Q" by (simp add: distrib_right)
      then have "(of_int K :: rat) < 8388608 + 3 / 2" using Qpos by (simp only: mult_less_cancel_right_pos)
      then have "(of_int K :: rat) < of_int 8388610" by simp
      then have "K < 8388610" by (simp only: of_int_less_iff)
      then show ?thesis by simp
    qed
    show ?thesis
    proof (cases "e = - 126")
      case True
      have "ilog2 xx < - 126" using down by (intro ilog2_lt [OF xpos]) (simp add: A True)
      then have "max (- 149) (ilog2 xx - 23) = - 149" by simp
      then have "quantum binary32 xx = 2 powi (- 149)" by (simp add: quantum_eq binary32_fields)
      also have "\<dots> = Q" unfolding Q True by simp
      finally have qx: "quantum binary32 xx = Q" .
      from K1 K4 consider "K = 8388608" | "K = 8388609" by linarith
      then show ?thesis
      proof cases
        case 1
        then have mA': "m = A" by (simp add: K AQ)
        from b2 [OF mA'] have "A - 3 / 4 * Q < xx" unfolding mA' by linarith
        then have l1: "of_int 8388607 * Q - Q / 2 < xx" using Qpos unfolding AQ by simp
        have h1: "xx < of_int 8388608 * Q + Q / 2" using down Qpos by (simp add: AQ)
        from round_on_grid [OF xpos zv qx Qpos l1 h1] obtain i :: int
          where i: "8388607 \<le> i" "i \<le> 8388608" "zv = of_int i * Q" by blast
        from i(1,2) consider "i = 8388607" | "i = 8388608" by linarith
        then show ?thesis
        proof cases
          case 1
          then have "zv = m - Q" by (simp add: i(3) mA' AQ)
          with mA' True show ?thesis by simp
        next
          case 2
          then have "zv = m" by (simp add: i(3) mA' AQ)
          then show ?thesis by simp
        qed
      next
        case 2
        then have mA': "m = A + Q" by (simp add: K AQ)
        from b3 [OF mA'] have "A - 1 / 4 * Q < xx" unfolding mA' by linarith
        then have l1: "of_int 8388608 * Q - Q / 2 < xx" using Qpos unfolding AQ by simp
        have h1: "xx < of_int 8388608 * Q + Q / 2" using down Qpos by (simp add: AQ)
        from round_on_grid [OF xpos zv qx Qpos l1 h1] obtain i :: int
          where i: "8388608 \<le> i" "i \<le> 8388608" "zv = of_int i * Q" by blast
        then have "zv = A" by (simp add: AQ)
        then show ?thesis using mA' by simp
      qed
    next
      case False
      with e126' have e126: "- 126 < e" by simp
    have xl: "A / 2 \<le> xx"
    proof -
      have "A - 3 / 2 * Q < xx" using lo mA(1) by linarith
      then show ?thesis using Qpos by (simp add: AQ)
    qed
    have "(2::rat) powi (- 126) \<le> 2 powi (e - 1)" using e126 by (intro powi_le) simp
    also have "\<dots> = A / 2" by (simp add: A power_int_diff)
    finally have xN: "2 powi (- 126) \<le> xx" using xl by linarith
    have "2 powi (e - 1) \<le> xx" using xl by (simp add: A power_int_diff)
    moreover have "xx < 2 powi (e - 1 + 1)" using down by (simp add: A)
    ultimately have il: "ilog2 xx = e - 1" by (rule ilog2_unique)
    have qx: "quantum binary32 xx = Q / 2"
    proof -
      have "quantum binary32 xx = 2 powi (e - 1 - 23)" using quantum_normal32 [OF xN] by (simp only: il)
      also have "e - 1 - 23 = (e - 23) - 1" by simp
      finally show ?thesis by (simp add: power_int_diff Q)
    qed
    have Q2: "0 < Q / 2" using Qpos by simp
    from K4 K1 consider "K = 8388608" | "K = 8388609" by linarith
    then show ?thesis
    proof cases
      case 1
      then have mA': "m = A" by (simp add: K AQ)
      from b2 [OF mA'] have "A - 3 / 4 * Q < xx" unfolding mA' by linarith
      then have l1: "of_int 16777215 * (Q / 2) - (Q / 2) / 2 < xx" by (simp add: AQ)
      have h1: "xx < of_int 16777216 * (Q / 2) + (Q / 2) / 2" using down Qpos by (simp add: AQ)
      from round_on_grid [OF xpos zv qx Q2 l1 h1] obtain i :: int
        where i: "16777215 \<le> i" "i \<le> 16777216" "zv = of_int i * (Q / 2)" by blast
      from i(1,2) consider "i = 16777215" | "i = 16777216" by linarith
      then show ?thesis
      proof cases
        case 1
        then have "zv = m - Q / 2" by (simp add: i(3) mA' AQ)
        with mA' e126 show ?thesis by simp
      next
        case 2
        then have "zv = m" by (simp add: i(3) mA' AQ)
        then show ?thesis by simp
      qed
    next
      case 2
      then have mA': "m = A + Q" by (simp add: K AQ)
      from b3 [OF mA'] have "A - 1 / 4 * Q < xx" unfolding mA' by linarith
      then have l1: "of_int 16777216 * (Q / 2) - (Q / 2) / 2 < xx" by (simp add: AQ)
      have h1: "xx < of_int 16777216 * (Q / 2) + (Q / 2) / 2" using down Qpos by (simp add: AQ)
      from round_on_grid [OF xpos zv qx Q2 l1 h1] obtain i :: int
        where i: "16777216 \<le> i" "i \<le> 16777216" "zv = of_int i * (Q / 2)" by blast
      then have "zv = A" by (simp add: AQ)
      then show ?thesis using mA' by simp
    qed
    qed
  qed
qed

lemma normal_below_next_binade:
  assumes rm: "representable binary32 m" and mN: "2 powi (- 126) \<le> m"
  shows "m \<le> 2 * 2 powi ilog2 m * (1 - 1 / 16777216)"
proof -
  define Q :: rat where "Q = 2 powi (ilog2 m - 23)"
  define A :: rat where "A = 2 powi ilog2 m"
  have mpos: "0 < m" using mN powi_pos [of "- 126"] by linarith
  have Qpos: "0 < Q" by (simp add: Q_def)
  have AQ: "A = 8388608 * Q" by (simp add: A_def Q_def power_int_diff)
  from ilog2_bounds [OF mpos] have mA: "m < 2 * A" by (simp add: A_def powi_suc)
  have qm: "quantum binary32 m = Q" using quantum_normal32 [OF mN] by (simp add: Q_def)
  from representable_multiple [OF rm] obtain K :: int where K: "m = of_int K * Q"
    by (auto simp: qm)
  have "of_int K * Q < 16777216 * Q" using mA by (simp add: AQ K)
  then have "(of_int K :: rat) < of_int 16777216" using Qpos by simp
  then have "K < 16777216" by (simp only: of_int_less_iff)
  then have "K \<le> 16777215" by simp
  then have "(of_int K :: rat) \<le> of_int 16777215" by (simp only: of_int_le_iff)
  then have "of_int K * Q \<le> of_int 16777215 * Q" using Qpos by (intro mult_right_mono) simp_all
  then have "m \<le> 16777215 * Q" by (simp add: K)
  also have "\<dots> = 2 * A * (1 - 1 / 16777216)" by (simp add: AQ)
  finally show ?thesis by (simp only: A_def)
qed

lemma binade_product:
  fixes m n :: rat
  assumes m: "0 < m" and n: "0 < n"
  shows "(2::rat) powi ilog2 (m * n) * 2 powi ilog2 (1 / n) = 2 powi ilog2 m
       \<or> (2::rat) * (2 powi ilog2 (m * n) * 2 powi ilog2 (1 / n)) = 2 powi ilog2 m"
proof -
  define c where "c = ilog2 (m * n)"
  define d where "d = ilog2 (1 / n)"
  define e where "e = ilog2 m"
  have P: "0 < m * n" and I: "0 < 1 / n" using m n by simp_all
  from ilog2_bounds [OF P] have p: "2 powi c \<le> m * n" "m * n < 2 powi (c + 1)" by (simp_all add: c_def)
  from ilog2_bounds [OF I] have i: "2 powi d \<le> 1 / n" "1 / n < 2 powi (d + 1)" by (simp_all add: d_def)
  from ilog2_bounds [OF m] have b: "2 powi e \<le> m" "m < 2 powi (e + 1)" by (simp_all add: e_def)
  have mm: "m * n * (1 / n) = m" using n by simp
  have "2 powi c * 2 powi d \<le> m * n * (1 / n)"
    using p(1) i(1) P by (intro mult_mono) simp_all
  then have "(2::rat) powi (c + d) \<le> m" unfolding mm by (simp add: power_int_add)
  with b(2) have "(2::rat) powi (c + d) < 2 powi (e + 1)" by linarith
  then have u: "c + d < e + 1" by (simp only: powi_less_iff)
  have "m * n * (1 / n) < 2 powi (c + 1) * 2 powi (d + 1)"
    using p(2) i(2) P I by (intro mult_strict_mono) simp_all
  moreover have "(2::rat) powi (c + 1) * 2 powi (d + 1) = 2 powi (c + 1 + (d + 1))"
    by (simp add: power_int_add)
  ultimately have "m < 2 powi (c + 1 + (d + 1))" unfolding mm by simp
  with b(1) have "(2::rat) powi e < 2 powi (c + 1 + (d + 1))" by linarith
  then have l: "e < c + 1 + (d + 1)" by (simp only: powi_less_iff)
  from u l consider "c + d = e" | "c + d + 1 = e" by linarith
  then show ?thesis
  proof cases
    case 1
    have "(2::rat) powi c * 2 powi d = 2 powi (c + d)" by (simp add: power_int_add)
    then show ?thesis unfolding c_def [symmetric] d_def [symmetric] e_def [symmetric] 1 by simp
  next
    case 2
    have "2 * ((2::rat) powi c * 2 powi d) = 2 powi (c + d + 1)" by (simp add: power_int_add)
    then show ?thesis unfolding c_def [symmetric] d_def [symmetric] e_def [symmetric] 2 by simp
  qed
qed

lemma IsEqual_smallest_normal:
  "IsEqual (Fin s (2 powi (- 126) - 2 powi (- 149))) (Fin s (2 powi (- 126)))"
proof -
  have "IsEqual (Fin True (2 powi (- 126) - 2 powi (- 149))) (Fin True (2 powi (- 126)))" by code_simp
  moreover have "IsEqual (Fin False (2 powi (- 126) - 2 powi (- 149))) (Fin False (2 powi (- 126)))" by code_simp
  ultimately show ?thesis by (cases s) (simp_all only:)
qed

lemma scale_divide_normal:
  assumes rm: "representable binary32 m" and rn: "representable binary32 n"
    and mN: "2 powi (- 126) \<le> m" and n: "0 < n" and N: "2 powi (- 126) \<le> 1 / n"
    and PN: "2 powi (- 126) \<le> m * n"
    and R: "float_of_double (fdiv_in binary64 (Fin False 1) (double_of_float (Fin t n))) = Fin t' rv"
    and Y: "round_signed binary32 s1 (m * n) = Fin s1' yv"
    and Z: "round_signed binary32 s2 (yv * rv) = Fin s2' zv"
  shows "IsEqual (Fin sg zv) (Fin sg m)"
proof -
  define e where "e = ilog2 m"
  define A :: rat where "A = 2 powi e"
  define Q :: rat where "Q = 2 powi (e - 23)"
  define al :: rat where "al = 2 powi ilog2 (m * n)"
  define be :: rat where "be = 2 powi ilog2 (1 / n)"
  define u :: rat where "u = 1 / 16777216"
  define ep :: rat where "ep = 1 / 9007199254740992"
  have mpos: "0 < m" using mN powi_pos [of "- 126"] by linarith
  have Qpos: "0 < Q" by (simp add: Q_def)
  have Apos: "0 < A" by (simp add: A_def)
  have AQ: "A = 8388608 * Q" by (simp add: A_def Q_def power_int_diff)
  have e126: "- 126 \<le> e" unfolding e_def by (rule ilog2_ge [OF mN])
  from ilog2_bounds [OF mpos] have mA: "A \<le> m" "m < 2 * A" by (simp_all add: A_def e_def powi_suc)
  have "(2::rat) powi e < 2 powi 128"
    using mA(1) representable_lt [OF rm] unfolding A_def binary32_fields by linarith
  then have e128: "e < 128" by (simp only: powi_less_iff)
  have P: "0 < m * n" and I: "0 < 1 / n" using mpos n by simp_all
  from ilog2_bounds [OF P] have p: "al \<le> m * n" "m * n < 2 * al" by (simp_all add: al_def powi_suc)
  from ilog2_bounds [OF I] have i: "be \<le> 1 / n" "1 / n < 2 * be" by (simp_all add: be_def powi_suc)
  have e1: "\<bar>yv - m * n\<bar> \<le> al * u" unfolding al_def u_def by (rule product_error [OF PN Y])
  note r = reciprocal_error [OF n N R]
  have e2: "\<bar>rv - 1 / n\<bar> \<le> be * (u + ep)" unfolding be_def u_def ep_def by (rule r(3))
  have e2x: "1 / n = be \<longrightarrow> rv = 1 / n" unfolding be_def by (rule impI) (rule r(4))
  have m2: "m \<le> 2 * A * (1 - u)"
    unfolding A_def e_def u_def by (rule normal_below_next_binade [OF rm mN])
  have ab: "al * be = A \<or> 2 * (al * be) = A"
    unfolding al_def be_def A_def e_def by (rule binade_product [OF mpos n])
  have u: "0 < u" "u \<le> 1 / 16" and ep: "0 \<le> ep" "4 * ep \<le> u * u" by (simp_all add: u_def ep_def)
  have alpos: "0 < al" and bepos: "0 < be" by (simp_all add: al_def be_def)
  note E = round_trip_error [OF n mpos u ep p alpos i bepos e1 e2 e2x mA(1) m2 ab]
  have uq: "3 * u * A = 3 / 2 * Q" "3 / 2 * u * A = 3 / 4 * Q" "5 / 2 * u * A = 5 / 4 * Q"
    "A * (1 + 2 * u) = A + Q" by (simp_all add: u_def AQ)
  have b1: "\<bar>yv * rv - m\<bar> < 3 / 2 * Q" using E(1) by (simp only: uq)
  have b2: "\<bar>yv * rv - m\<bar> < 3 / 4 * Q" if "m = A"
  proof -
    have "2 powi (- 126) \<le> 2 powi e * n" using PN that by (simp only: A_def)
    moreover have "round_signed binary32 s1 (2 powi e * n) = Fin s1' yv" using Y that by (simp only: A_def)
    ultimately have "yv = 2 powi e * n" by (rule product_exact_pow2 [OF rn n])
    then have "yv = m * n" using that by (simp only: A_def)
    from E(2) [OF that this] show ?thesis by (simp only: uq)
  qed
  have b3: "\<bar>yv * rv - m\<bar> < 5 / 4 * Q" if "m = A + Q"
  proof -
    from that have "m = A * (1 + 2 * u)" by (simp only: uq)
    from E(3) [OF this] show ?thesis by (simp only: uq)
  qed
  have m0: "0 \<le> m" using mpos by simp
  from round_near [OF rm mN e_def Q_def A_def b1 b2 b3 Z]
  consider (eq) "zv = m" | (up) "zv = m + Q" | (down) "zv = m - Q" "A \<le> zv"
    | (half) "zv = m - Q / 2" "m = A" "- 125 \<le> e" | (least) "zv = m - Q" "m = A" "e = - 126"
    by blast
  then show ?thesis
  proof cases
    case eq
    then show ?thesis using IsEqual_refl [OF m0] by simp
  next
    case up
    have j: "- 149 \<le> e - 23" "e - 23 < 128" using e126 e128 by simp_all
    have d: "\<bar>zv - m\<bar> = 2 powi (e - 23)" using up Qpos by (simp add: Q_def)
    have "A \<le> min zv m" using up mA(1) Qpos by simp
    then have l: "2 powi (e - 23 + 23) \<le> min zv m" by (simp add: A_def)
    have z0: "0 \<le> zv" using up m0 Qpos by simp
    show ?thesis by (rule IsEqual_pow2_apart [OF z0 m0 d j l])
  next
    case down
    have j: "- 149 \<le> e - 23" "e - 23 < 128" using e126 e128 by simp_all
    have d: "\<bar>zv - m\<bar> = 2 powi (e - 23)" using down Qpos by (simp add: Q_def)
    have "A \<le> min zv m" using down mA(1) by simp
    then have l: "2 powi (e - 23 + 23) \<le> min zv m" by (simp add: A_def)
    have z0: "0 \<le> zv" using down Apos by simp
    show ?thesis by (rule IsEqual_pow2_apart [OF z0 m0 d j l])
  next
    case half
    have j: "- 149 \<le> e - 24" "e - 24 < 128" using half(3) e128 by simp_all
    have Q2: "Q / 2 = 2 powi (e - 24)" by (simp add: Q_def power_int_diff)
    have A2: "A / 2 = 2 powi (e - 24 + 23)" by (simp add: A_def power_int_diff)
    have d: "\<bar>zv - m\<bar> = 2 powi (e - 24)" using half Qpos by (simp add: Q2)
    have "A / 2 \<le> min zv m" using half Qpos Apos by (simp add: AQ)
    then have l: "2 powi (e - 24 + 23) \<le> min zv m" by (simp only: A2)
    have z0: "0 \<le> zv" using half Qpos by (simp add: AQ)
    show ?thesis by (rule IsEqual_pow2_apart [OF z0 m0 d j l])
  next
    case least
    have "m = 2 powi (- 126)" using least by (simp only: A_def)
    moreover have "Q = 2 powi (- 149)" using least by (simp add: Q_def)
    ultimately show ?thesis using least(1) by (simp only: IsEqual_smallest_normal)
  qed
qed

lemma isfinite_Fin: "isfinite p \<Longrightarrow> \<exists>s m. p = Fin s m"
  by (cases p) simp_all

lemma scale_divide_component:
  assumes rs: "reciprocal_in_range s" and ps: "scaling_in_range p s"
  shows "IsEqual (fmul (fmul p s) (reciprocal s)) p"
proof -
  from rs obtain t n where s: "s = Fin t n"
    by (auto simp: reciprocal_in_range_def dest: isfinite_Fin)
  from ps obtain sp m where p: "p = Fin sp m"
    by (auto simp: scaling_in_range_def dest: isfinite_Fin)
  from rs s have rn: "representable binary32 n" and n0: "n \<noteq> 0"
    and N: "2 powi (- 126) \<le> 1 / n" and fr: "isfinite (reciprocal s)"
    by (simp_all add: reciprocal_in_range_def FLT_MIN_def)
  from ps p have rm: "representable binary32 m" by (simp add: scaling_in_range_def)
  have n: "0 < n" using representable_nonneg [OF rn] n0 by simp
  have m0: "0 \<le> m" by (rule representable_nonneg [OF rm])
  from isfinite_Fin [OF fr] obtain t' rv where R': "reciprocal s = Fin t' rv" by blast
  then have R: "float_of_double (fdiv_in binary64 (Fin False 1) (double_of_float (Fin t n))) = Fin t' rv"
    by (simp only: reciprocal_def s)
  have t': "t' = t" by (rule reciprocal_error(1) [OF n N R])
  have sg: "((sp \<noteq> t) \<noteq> t) = sp" by blast
  show ?thesis
  proof (cases "m = 0")
    case True
    have "fmul p s = Fin (sp \<noteq> t) 0" by (simp add: p s True fmul_def round_signed_def)
    then have "fmul (fmul p s) (reciprocal s) = Fin ((sp \<noteq> t) \<noteq> t) 0"
      by (simp add: R' t' fmul_def round_signed_def)
    then have "fmul (fmul p s) (reciprocal s) = Fin sp 0" by (simp only: sg)
    then show ?thesis using IsEqual_refl [of 0 sp] by (simp add: p True)
  next
    case False
    with ps p s have mN: "2 powi (- 126) \<le> m" and PN: "2 powi (- 126) \<le> m * n"
      and fy: "isfinite (fmul p s)" and fz: "isfinite (fmul (fmul p s) (reciprocal s))"
      by (simp_all add: scaling_in_range_def FLT_MIN_def)
    from isfinite_Fin [OF fy] obtain s1 yv where Y': "fmul p s = Fin s1 yv" by blast
    then have Y: "round_signed binary32 (sp \<noteq> t) (m * n) = Fin s1 yv" by (simp add: p s fmul_def)
    have s1: "s1 = (sp \<noteq> t)" by (rule round_signed_sign [OF Y])
    from isfinite_Fin [OF fz] obtain s2 zv where Z': "fmul (fmul p s) (reciprocal s) = Fin s2 zv" by blast
    have "fmul (fmul p s) (reciprocal s) = fmul (Fin s1 yv) (Fin t rv)" by (simp only: Y' R' t')
    also have "\<dots> = round_signed binary32 (s1 \<noteq> t) (yv * rv)" by (simp add: fmul_def)
    finally have Z: "round_signed binary32 (s1 \<noteq> t) (yv * rv) = Fin s2 zv" by (simp only: Z')
    have "s2 = (s1 \<noteq> t)" by (rule round_signed_sign [OF Z])
    then have s2: "s2 = sp" unfolding s1 by (simp only: sg)
    have "IsEqual (Fin sp zv) (Fin sp m)"
      by (rule scale_divide_normal [OF rm rn mN n N PN R Y Z])
    then have "IsEqual (fmul (fmul p s) (reciprocal s)) (Fin sp m)" by (simp only: Z' s2)
    then show ?thesis by (simp only: p)
  qed
qed

lemma reciprocal_in_range_nonzero:
  "reciprocal_in_range s \<Longrightarrow> \<not> feq (double_of_float s) (Fin False 0)"
  by (cases s) (auto simp: reciprocal_in_range_def double_of_float_def fval_def)

lemma Vector2_div_reciprocal:
  "\<not> feq (double_of_float s) (Fin False 0) \<Longrightarrow>
   Vector2_div cerr v s = (Inr (Vector2_mul v (reciprocal s)), cerr)"
  by (simp add: Vector2_div_def reciprocal_def Let_def)

lemma Vector3_div_reciprocal:
  "\<not> feq (double_of_float s) (Fin False 0) \<Longrightarrow>
   Vector3_div cerr v s = (Inr (Vector3_mul v (reciprocal s)), cerr)"
  by (simp add: Vector3_div_def reciprocal_def Let_def)

text \<open>
  C5, amended. For every Vector2 or Vector3 whose components are finite, and each either
  zero or normal, and for every finite nonzero scalar \<open>s\<close> such that the reciprocal of \<open>s\<close>
  and every product of a nonzero component with \<open>s\<close> neither overflow nor underflow and
  the final products do not overflow, \<open>(v * s) / s\<close> compares equal to \<open>v\<close> under the
  tolerant equality.
\<close>

theorem Vector_scale_divide_in_range:
  assumes "reciprocal_in_range s"
    and "scaling_in_range (Vector2.x u) s" "scaling_in_range (Vector2.y u) s"
    and "scaling_in_range (Vector3.x v) s" "scaling_in_range (Vector3.y v) s"
      "scaling_in_range (Vector3.z v) s"
  shows "Vector2_scale_divide_equal u s \<and> Vector3_scale_divide_equal v s"
proof -
  note nz = reciprocal_in_range_nonzero [OF assms(1)]
  note c = scale_divide_component [OF assms(1)]
  have "Vector2_scale_divide_equal u s"
    using c [OF assms(2)] c [OF assms(3)]
    by (simp add: Vector2_scale_divide_equal_def Vector2_div_reciprocal [OF nz] Vector2_eq_def
        Vector2_mul_def Vector2Scale_def)
  moreover have "Vector3_scale_divide_equal v s"
    using c [OF assms(4)] c [OF assms(5)] c [OF assms(6)]
    by (simp add: Vector3_scale_divide_equal_def Vector3_div_reciprocal [OF nz] Vector3_eq_def
        Vector3_mul_def Vector3Scale_def)
  ultimately show ?thesis by simp
qed

text \<open>
  Without that condition the round trip can fail: \<open>2 ^ 127\<close> times 2 overflows to
  infinity, half of infinity is infinity, and infinity does not compare equal to
  \<open>2 ^ 127\<close>.
\<close>

theorem Vector_scale_divide_counterexample:
  "is_float (Fin False (2 ^ 127)) \<and> is_float (Fin False 0) \<and> is_float (Fin False 2)
   \<and> \<not> is_zero (Fin False 2)
   \<and> fst (Vector2_div [] (Vector2_mul \<lparr>Vector2.x = Fin False (2 ^ 127), Vector2.y = Fin False 0\<rparr> (Fin False 2)) (Fin False 2))
       = Inr \<lparr>Vector2.x = Infty False, Vector2.y = Fin False 0\<rparr>
   \<and> \<not> Vector2_scale_divide_equal \<lparr>Vector2.x = Fin False (2 ^ 127), Vector2.y = Fin False 0\<rparr> (Fin False 2)"
  by code_simp

text \<open>
  The example in the header's own comment, \<open>Vector3{1.0,1.5,2.0}\<close> scaled by the
  \<^verbatim>\<open>float\<close> nearest to the square root of 2 and divided back: every component comes
  back one unit in the last place short. The same happens to a negative component, and a
  zero component comes back as it was.
\<close>

lemma header_example:
  "fst (Vector3_div []
         (Vector3_mul \<lparr>Vector3.x = Fin False 1, Vector3.y = Fin False (3 / 2), Vector3.z = Fin False 2\<rparr>
            (Fin False (11863283 / 8388608)))
         (Fin False (11863283 / 8388608)))
     = Inr \<lparr>Vector3.x = Fin False (16777215 / 16777216), Vector3.y = Fin False (12582911 / 8388608),
            Vector3.z = Fin False (16777215 / 8388608)\<rparr>"
  by code_simp

lemma negative_example:
  "fst (Vector2_div []
         (Vector2_mul \<lparr>Vector2.x = Fin True 1, Vector2.y = Fin False 0\<rparr> (Fin False (11863283 / 8388608)))
         (Fin False (11863283 / 8388608)))
     = Inr \<lparr>Vector2.x = Fin True (16777215 / 16777216), Vector2.y = Fin False 0\<rparr>"
  by code_simp

theorem Vector_scale_divide_in_range_witness:
  "reciprocal_in_range (Fin False (11863283 / 8388608))
   \<and> scaling_in_range (Fin True 1) (Fin False (11863283 / 8388608))
   \<and> scaling_in_range (Fin False 0) (Fin False (11863283 / 8388608))
   \<and> scaling_in_range (Fin False 1) (Fin False (11863283 / 8388608))
   \<and> scaling_in_range (Fin False (3 / 2)) (Fin False (11863283 / 8388608))
   \<and> scaling_in_range (Fin False 2) (Fin False (11863283 / 8388608))
   \<and> fst (Vector2_div []
         (Vector2_mul \<lparr>Vector2.x = Fin True 1, Vector2.y = Fin False 0\<rparr> (Fin False (11863283 / 8388608)))
         (Fin False (11863283 / 8388608)))
       = Inr \<lparr>Vector2.x = Fin True (16777215 / 16777216), Vector2.y = Fin False 0\<rparr>
   \<and> fst (Vector3_div []
         (Vector3_mul \<lparr>Vector3.x = Fin False 1, Vector3.y = Fin False (3 / 2), Vector3.z = Fin False 2\<rparr>
            (Fin False (11863283 / 8388608)))
         (Fin False (11863283 / 8388608)))
       = Inr \<lparr>Vector3.x = Fin False (16777215 / 16777216), Vector3.y = Fin False (12582911 / 8388608),
            Vector3.z = Fin False (16777215 / 8388608)\<rparr>
   \<and> Vector2_scale_divide_equal \<lparr>Vector2.x = Fin True 1, Vector2.y = Fin False 0\<rparr>
        (Fin False (11863283 / 8388608))
   \<and> Vector3_scale_divide_equal
        \<lparr>Vector3.x = Fin False 1, Vector3.y = Fin False (3 / 2), Vector3.z = Fin False 2\<rparr>
        (Fin False (11863283 / 8388608))"
proof -
  have r: "reciprocal_in_range (Fin False (11863283 / 8388608))" by code_simp
  have c: "scaling_in_range (Fin True 1) (Fin False (11863283 / 8388608))"
    "scaling_in_range (Fin False 0) (Fin False (11863283 / 8388608))"
    "scaling_in_range (Fin False 1) (Fin False (11863283 / 8388608))"
    "scaling_in_range (Fin False (3 / 2)) (Fin False (11863283 / 8388608))"
    "scaling_in_range (Fin False 2) (Fin False (11863283 / 8388608))"
    by code_simp+
  from Vector_scale_divide_in_range
    [of "Fin False (11863283 / 8388608)" "\<lparr>Vector2.x = Fin True 1, Vector2.y = Fin False 0\<rparr>"
        "\<lparr>Vector3.x = Fin False 1, Vector3.y = Fin False (3 / 2), Vector3.z = Fin False 2\<rparr>"]
  show ?thesis
    using r c header_example negative_example by simp
qed

subsection \<open>Equality with a zero component\<close>

lemma fmul_zero_epsilon: "fmul (Fin False 0) epsilon = Fin False 0"
  by (simp add: fmul_def epsilon_def round_signed_def)

lemma tolerance_zero_left:
  assumes "is_float q"
  shows "tolerance (Fin sg 0) q = Fin False 0"
proof (cases q)
  case (Fin t n)
  with assms have "0 \<le> n" by (simp add: representable_nonneg)
  with Fin show ?thesis
    by (auto simp: tolerance_def fgt_def fval_def fmul_zero_epsilon)
qed (simp_all add: tolerance_def fgt_def fmul_zero_epsilon)

lemma tolerance_zero_right:
  assumes "is_float q" "q \<noteq> NaN"
  shows "tolerance q (Fin sg 0) = Fin False 0"
proof (cases q)
  case NaN
  with assms show ?thesis by simp
next
  case (Infty t)
  then show ?thesis by (simp add: tolerance_def fgt_def fmul_zero_epsilon)
next
  case (Fin t n)
  with assms have "0 \<le> n" by (simp add: representable_nonneg)
  with Fin show ?thesis
    by (auto simp: tolerance_def fgt_def fval_def fmul_zero_epsilon)
qed

lemma IsEqual_tolerance: "IsEqual p q \<longleftrightarrow> fle (fabs (fsub p q)) (tolerance p q)"
  by (simp add: IsEqual_def tolerance_def)

lemma fabs_fsub_zero_left:
  assumes "representable binary32 n"
  shows "fabs (fsub (Fin sg 0) (Fin t n)) = Fin False n"
proof (cases "n = 0")
  case True
  then show ?thesis by (simp add: fsub_def fval_def)
next
  case False
  moreover from assms have "0 \<le> n" by (rule representable_nonneg)
  ultimately have "\<bar>fval sg 0 - fval t n\<bar> = n" "fval sg 0 - fval t n \<noteq> 0"
    by (auto simp: fval_def)
  then show ?thesis
    by (simp add: fsub_def Let_def round_signed_exact [OF assms])
qed

lemma fabs_fsub_zero_right:
  assumes "representable binary32 n"
  shows "fabs (fsub (Fin t n) (Fin sg 0)) = Fin False n"
proof (cases "n = 0")
  case True
  then show ?thesis by (simp add: fsub_def fval_def)
next
  case False
  moreover from assms have "0 \<le> n" by (rule representable_nonneg)
  ultimately have "\<bar>fval t n - fval sg 0\<bar> = n" "fval t n - fval sg 0 \<noteq> 0"
    by (auto simp: fval_def)
  then show ?thesis
    by (simp add: fsub_def Let_def round_signed_exact [OF assms])
qed

lemma IsEqual_zero_left:
  assumes "is_float q"
  shows "IsEqual (Fin sg 0) q \<longleftrightarrow> is_zero q"
proof (cases q)
  case NaN
  then show ?thesis by (simp add: IsEqual_tolerance fsub_NaN fle_NaN)
next
  case (Infty t)
  then show ?thesis
    by (simp add: IsEqual_tolerance tolerance_zero_left fsub_def fle_def)
next
  case (Fin t n)
  with assms have rep: "representable binary32 n" by simp
  then have "0 \<le> n" by (rule representable_nonneg)
  with Fin show ?thesis
    using tolerance_zero_left [OF assms, of sg]
    by (auto simp: IsEqual_tolerance fabs_fsub_zero_left [OF rep] fle_def fval_def)
qed

lemma IsEqual_zero_right:
  assumes "is_float q"
  shows "IsEqual q (Fin sg 0) \<longleftrightarrow> is_zero q"
proof (cases q)
  case NaN
  then show ?thesis by (simp add: IsEqual_tolerance fsub_NaN fle_NaN)
next
  case (Infty t)
  then show ?thesis
    using tolerance_zero_right [of q sg]
    by (simp add: IsEqual_tolerance fsub_def fle_def)
next
  case (Fin t n)
  with assms have rep: "representable binary32 n" by simp
  then have "0 \<le> n" by (rule representable_nonneg)
  with Fin show ?thesis
    using tolerance_zero_right [OF assms, of sg]
    by (auto simp: IsEqual_tolerance fabs_fsub_zero_right [OF rep] fle_def fval_def)
qed

lemma is_zero_iff: "is_zero q \<longleftrightarrow> q = Fin False 0 \<or> q = Fin True 0"
  by (cases q) auto

lemma IsEqual_zero_either:
  assumes "is_float p" "is_float q" "IsEqual p q"
  shows "is_zero p \<longleftrightarrow> is_zero q"
proof
  assume "is_zero p"
  then obtain sg where "p = Fin sg 0" by (cases p) auto
  with assms show "is_zero q" by (simp add: IsEqual_zero_left)
next
  assume "is_zero q"
  then obtain sg where "q = Fin sg 0" by (cases q) auto
  with assms show "is_zero p" by (simp add: IsEqual_zero_right)
qed

text \<open>
  C10, amended. When one component of a pair is exactly zero, the pair compares equal if
  and only if the other component is a zero of either sign; the tolerance is then
  \<open>+0\<close>, except that it is NaN when the left component is NaN. So two vectors that
  compare equal have their zero components in the same places.
\<close>

theorem IsEqual_with_zero:
  assumes "is_float q"
  shows "tolerance (Fin sg 0) q = Fin False 0
    \<and> (q \<noteq> NaN \<longrightarrow> tolerance q (Fin sg 0) = Fin False 0)
    \<and> (IsEqual (Fin sg 0) q \<longleftrightarrow> q = Fin False 0 \<or> q = Fin True 0)
    \<and> (IsEqual q (Fin sg 0) \<longleftrightarrow> q = Fin False 0 \<or> q = Fin True 0)
    \<and> (\<forall>u v. is_float (Vector2.x u) \<and> is_float (Vector2.x v) \<and> is_float (Vector2.y u)
          \<and> is_float (Vector2.y v) \<and> Vector2_eq u v \<longrightarrow>
          (is_zero (Vector2.x u) \<longleftrightarrow> is_zero (Vector2.x v))
          \<and> (is_zero (Vector2.y u) \<longleftrightarrow> is_zero (Vector2.y v)))"
  using assms
  by (auto simp: tolerance_zero_left tolerance_zero_right IsEqual_zero_left IsEqual_zero_right
      is_zero_iff [symmetric] Vector2_eq_def dest: IsEqual_zero_either)

lemma one_float: "is_float (Fin False 1)"
  by code_simp

theorem IsEqual_with_zero_witness:
  "is_float (Fin False 1) \<and> \<not> IsEqual (Fin False 0) (Fin False 1)
   \<and> \<not> IsEqual (Fin False 1) (Fin True 0)
   \<and> tolerance (Fin False 1) (Fin True 0) = Fin False 0"
  using IsEqual_with_zero [OF one_float, of False] IsEqual_with_zero [OF one_float, of True] one_float
  by simp

text \<open>
  With a NaN on the left the conditional selects the NaN, and the tolerance is not zero.
\<close>

theorem tolerance_NaN_zero_counterexample:
  "is_zero (Fin False 0) \<and> tolerance NaN (Fin False 0) = NaN \<and> tolerance NaN (Fin False 0) \<noteq> Fin False 0"
  by (simp add: tolerance_def fgt_def fmul_def)

end
